theory Spec2Isabelle
  imports Main "HOL-Library.Sublist"
begin

section \<open>Strings and characters\<close>

text \<open>
  A JavaScript string is modelled as a \<^typ>\<open>string\<close>, one \<^typ>\<open>char\<close> per code unit:
  the strings of the model are those whose code units are U+0000 to U+00FF. On these
  code units the character classes \<open>\s\<close>, \<open>\w\<close> and \<open>.\<close>, \<open>trim\<close> and the lower case
  mapping are the ones of JavaScript. So is the upper case mapping, but for U+00B5 and
  U+00FF: their upper case forms (U+039C and U+0178) are not code units of the model,
  and the model leaves these two characters as they are.
\<close>

definition charCode :: "char \<Rightarrow> nat" where
  "charCode c = of_char c"

text \<open>
  The upper case of a character: the letters \<open>a\<close> to \<open>z\<close> and U+00E0 to U+00FE (but
  the division sign U+00F7) go 32 down, and U+00DF becomes \<open>SS\<close>.
\<close>

definition toUpperChar :: "char \<Rightarrow> string" where
  "toUpperChar c =
     (if (97 \<le> charCode c \<and> charCode c \<le> 122) \<or>
         (224 \<le> charCode c \<and> charCode c \<le> 254 \<and> charCode c \<noteq> 247)
      then [char_of (charCode c - 32)]
      else if charCode c = 223 then ''SS''
      else [c])"

text \<open>
  The lower case of a character: the letters \<open>A\<close> to \<open>Z\<close> and U+00C0 to U+00DE (but
  the multiplication sign U+00D7) go 32 up.
\<close>

definition toLowerChar :: "char \<Rightarrow> char" where
  "toLowerChar c =
     (if (65 \<le> charCode c \<and> charCode c \<le> 90) \<or>
         (192 \<le> charCode c \<and> charCode c \<le> 222 \<and> charCode c \<noteq> 215)
      then char_of (charCode c + 32)
      else c)"

text \<open>\<open>String.prototype.toUpperCase\<close> and \<open>String.prototype.toLowerCase\<close>.\<close>

definition toUpperCase :: "string \<Rightarrow> string" where
  "toUpperCase s = concat (map toUpperChar s)"

definition toLowerCase :: "string \<Rightarrow> string" where
  "toLowerCase s = map toLowerChar s"

text \<open>
  The class \<open>\s\<close>, which is also what \<open>trim\<close> removes: tab, line feed, vertical tab,
  form feed, carriage return, space and the no-break space U+00A0.
\<close>

definition isWhiteSpace :: "char \<Rightarrow> bool" where
  "isWhiteSpace c = (charCode c \<in> {9, 10, 11, 12, 13, 32, 160})"

text \<open>The characters that \<open>.\<close> does not match: line feed and carriage return.\<close>

definition isLineTerminator :: "char \<Rightarrow> bool" where
  "isLineTerminator c = (charCode c \<in> {10, 13})"

text \<open>The class \<open>\w\<close>: letters, digits and the underscore.\<close>

definition isWordChar :: "char \<Rightarrow> bool" where
  "isWordChar c =
     ((65 \<le> charCode c \<and> charCode c \<le> 90) \<or> (97 \<le> charCode c \<and> charCode c \<le> 122) \<or>
      (48 \<le> charCode c \<and> charCode c \<le> 57) \<or> charCode c = 95)"

section \<open>The variant generator\<close>

text \<open>
  \<open>s.replace(/\s+/g, sep)\<close>: every maximal run of white space becomes \<open>sep\<close>.
\<close>

function replaceSpaces :: "string \<Rightarrow> string \<Rightarrow> string" where
  "replaceSpaces sep [] = []"
| "replaceSpaces sep (c # cs) =
     (if isWhiteSpace c then sep @ replaceSpaces sep (dropWhile isWhiteSpace cs)
      else c # replaceSpaces sep cs)"
  by pat_completeness auto
termination
  by (relation "measure (\<lambda>(sep, s). length s)") (auto simp: length_dropWhile_le le_imp_less_Suc)

text \<open>
  One attempt to match \<open>\s+(.)\<close> at the start of a string. The greedy \<open>\s+\<close> takes the
  whole run of white space first and gives characters back one at a time until the
  character after it is one that \<open>.\<close> matches; \<open>wsDotBacktrack s k\<close> tries the run
  lengths \<open>k\<close>, \<open>k - 1\<close>, ..., \<open>1\<close>. The result is the captured letter and the text
  after the match.
\<close>

fun wsDotBacktrack :: "string \<Rightarrow> nat \<Rightarrow> (char \<times> string) option" where
  "wsDotBacktrack s 0 = None"
| "wsDotBacktrack s (Suc k) =
     (if Suc k < length s \<and> \<not> isLineTerminator (s ! Suc k)
      then Some (s ! Suc k, drop (Suc (Suc k)) s)
      else wsDotBacktrack s k)"

definition matchWsDot :: "string \<Rightarrow> (char \<times> string) option" where
  "matchWsDot s = wsDotBacktrack s (length (takeWhile isWhiteSpace s))"

text \<open>
  \<open>s.replace(/\s+(.)/g, (match, letter) => letter.toUpperCase())\<close>: the scan tries each
  position from the left, and continues after a match.
\<close>

function camelReplace :: "string \<Rightarrow> string" where
  "camelReplace [] = []"
| "camelReplace (c # cs) =
     (case matchWsDot (c # cs) of
        Some (letter, rest) \<Rightarrow> toUpperCase [letter] @ camelReplace rest
      | None \<Rightarrow> c # camelReplace cs)"
  by pat_completeness auto

lemma wsDotBacktrack_rest:
  "wsDotBacktrack s k = Some (letter, rest) \<Longrightarrow> length rest < length s"
  by (induction k) (auto split: if_splits)

lemma matchWsDot_rest:
  "matchWsDot s = Some (letter, rest) \<Longrightarrow> length rest < length s"
  unfolding matchWsDot_def by (rule wsDotBacktrack_rest)

termination camelReplace
  by (relation "measure length") (auto dest: matchWsDot_rest)

text \<open>
  \<open>s.replace(/(?:^|\s+)(.)/g, (match, letter) => letter.toUpperCase())\<close>: at the first
  position the alternative \<open>^\<close> is tried first, so the first character is the captured
  letter whenever \<open>.\<close> matches it; at every later position \<open>^\<close> fails and the pattern
  is \<open>\s+(.)\<close>.
\<close>

definition pascalReplace :: "string \<Rightarrow> string" where
  "pascalReplace s =
     (case s of
        [] \<Rightarrow> []
      | c # cs \<Rightarrow>
          if \<not> isLineTerminator c then toUpperCase [c] @ camelReplace cs
          else (case matchWsDot s of
                  Some (letter, rest) \<Rightarrow> toUpperCase [letter] @ camelReplace rest
                | None \<Rightarrow> c # camelReplace cs))"

text \<open>
  \<open>s.replace(/\b\w/g, letter => letter.toUpperCase())\<close>: a word character is replaced
  when no word character stands before it. The flag says whether the previous
  character of the input was a word character.
\<close>

fun titleReplace :: "bool \<Rightarrow> string \<Rightarrow> string" where
  "titleReplace prevWord [] = []"
| "titleReplace prevWord (c # cs) =
     (if isWordChar c \<and> \<not> prevWord then toUpperCase [c] else [c]) @ titleReplace (isWordChar c) cs"

text \<open>
  \<open>[...new Set(variants)]\<close>: a set keeps each value once, at the place of its first
  insertion.
\<close>

definition setAdd :: "'a list \<Rightarrow> 'a \<Rightarrow> 'a list" where
  "setAdd seen x = (if x \<in> set seen then seen else seen @ [x])"

definition newSet :: "'a list \<Rightarrow> 'a list" where
  "newSet xs = foldl setAdd [] xs"

definition rawVariants :: "string \<Rightarrow> string list" where
  "rawVariants str =
     [str,
      toUpperCase str,
      replaceSpaces ''_'' (toLowerCase str),
      replaceSpaces ''_'' (toUpperCase str),
      replaceSpaces ''-'' (toLowerCase str),
      replaceSpaces ''-'' (toUpperCase str),
      camelReplace (toLowerCase str),
      replaceSpaces [] (pascalReplace (toLowerCase str)),
      titleReplace False str,
      replaceSpaces [] (toLowerCase str),
      replaceSpaces [] (toUpperCase str)]"

definition generateVariants :: "string \<Rightarrow> string list" where
  "generateVariants str = newSet (rawVariants str)"

section \<open>Case preservation\<close>

text \<open>
  \<open>preserveCase\<close>, with the two case mappings that it calls as parameters and any type
  of code units: what is proved of \<open>preserveCaseWith\<close> for every pair of mappings holds
  of the function on the whole of Unicode.
\<close>

definition preserveCaseWith ::
  "('c list \<Rightarrow> 'c list) \<Rightarrow> ('c list \<Rightarrow> 'c list) \<Rightarrow> 'c list \<Rightarrow> 'c list \<Rightarrow> 'c list" where
  "preserveCaseWith upperCase lowerCase original replacement =
     (case original of
        [] \<Rightarrow> replacement
      | firstOriginalChar # _ \<Rightarrow>
          (case replacement of
             [] \<Rightarrow> replacement
           | firstReplacementChar # rest \<Rightarrow>
               if [firstOriginalChar] = upperCase [firstOriginalChar] \<and>
                  [firstOriginalChar] \<noteq> lowerCase [firstOriginalChar]
               then upperCase [firstReplacementChar] @ rest
               else lowerCase [firstReplacementChar] @ rest))"

text \<open>\<open>preserveCase\<close> on the strings of the model.\<close>

definition preserveCase :: "string \<Rightarrow> string \<Rightarrow> string" where
  "preserveCase original replacement =
     preserveCaseWith toUpperCase toLowerCase original replacement"

section \<open>Literal patterns\<close>

definition backslash :: char where
  "backslash = CHR 0x5C"

text \<open>The characters of the class \<open>[.*+?^${}()|[\]\\]\<close>.\<close>

definition regExpSyntaxChars :: "char list" where
  "regExpSyntaxChars =
     [CHR ''.'', CHR ''*'', CHR ''+'', CHR ''?'', CHR ''^'', CHR ''$'', CHR ''{'', CHR ''}'',
      CHR ''('', CHR '')'', CHR ''|'', CHR ''['', CHR '']'', backslash]"

text \<open>
  \<open>string.replace(/[.*+?^${}()|[\]\\]/g, '\\$&')\<close>: a backslash goes before every
  syntax character.
\<close>

definition escapeRegExp :: "string \<Rightarrow> string" where
  "escapeRegExp s =
     concat (map (\<lambda>c. if c \<in> set regExpSyntaxChars then [backslash, c] else [c]) s)"

text \<open>
  \<open>new RegExp(source, 'g')\<close> for a source in which every syntax character is escaped:
  the pattern is a sequence of characters, an escaped character standing for itself, and
  the regular expression matches exactly that text. \<open>regExpLiteral\<close> reads the text off
  the source. A regular expression is represented by the text it matches.
\<close>

fun regExpLiteral :: "string \<Rightarrow> string" where
  "regExpLiteral [] = []"
| "regExpLiteral [c] = [c]"
| "regExpLiteral (c # d # cs) =
     (if c = backslash then d # regExpLiteral cs else c # regExpLiteral (d # cs))"

text \<open>The substring of \<open>s\<close> from index \<open>i\<close> up to index \<open>j\<close>.\<close>

definition substring :: "string \<Rightarrow> nat \<Rightarrow> nat \<Rightarrow> string" where
  "substring s i j = take (j - i) (drop i s)"

definition matchesAt :: "string \<Rightarrow> string \<Rightarrow> nat \<Rightarrow> bool" where
  "matchesAt lit s i = (i + length lit \<le> length s \<and> substring s i (i + length lit) = lit)"

text \<open>
  \<open>RegExpBuiltinExec\<close> for a global literal pattern: starting at \<open>lastIndex\<close>, the first
  index where the text stands; no result once \<open>lastIndex\<close> is past the end of the
  string.
\<close>

function regExpExec :: "string \<Rightarrow> string \<Rightarrow> nat \<Rightarrow> nat option" where
  "regExpExec lit s lastIndex =
     (if length s < lastIndex then None
      else if matchesAt lit s lastIndex then Some lastIndex
      else regExpExec lit s (Suc lastIndex))"
  by pat_completeness auto
termination
  by (relation "measure (\<lambda>(lit, s, lastIndex). Suc (length s) - lastIndex)") auto

declare regExpExec.simps [simp del]

lemma regExpExec_bounds:
  "regExpExec lit s lastIndex = Some i \<Longrightarrow> lastIndex \<le> i \<and> i \<le> length s \<and> matchesAt lit s i"
proof (induction lit s lastIndex rule: regExpExec.induct)
  case (1 lit s lastIndex)
  note unfold = regExpExec.simps [of lit s lastIndex]
  show ?case
  proof (cases "length s < lastIndex")
    case True
    with "1.prems" unfold show ?thesis by simp
  next
    case False
    show ?thesis
    proof (cases "matchesAt lit s lastIndex")
      case True
      with False "1.prems" unfold show ?thesis by simp
    next
      case no: False
      with False "1.prems" unfold have "regExpExec lit s (Suc lastIndex) = Some i" by simp
      with "1.IH" [OF False no] show ?thesis by simp
    qed
  qed
qed

text \<open>
  The results that repeated \<open>exec\<close> calls on a global regular expression give, as
  \<open>String.prototype.match\<close> and \<open>String.prototype.replace\<close> collect them: after a
  match \<open>lastIndex\<close> is the end of the match, and one more after an empty match.
\<close>

function execAll :: "string \<Rightarrow> string \<Rightarrow> nat \<Rightarrow> nat list" where
  "execAll lit s lastIndex =
     (case regExpExec lit s lastIndex of
        None \<Rightarrow> []
      | Some i \<Rightarrow> i # execAll lit s (if lit = [] then Suc i else i + length lit))"
  by pat_completeness auto
termination
proof (relation "measure (\<lambda>(lit, s, lastIndex). Suc (length s) - lastIndex)")
  show "wf (measure (\<lambda>(lit, s, lastIndex). Suc (length s) - lastIndex))" by simp
next
  fix lit s :: string and lastIndex i :: nat
  assume "regExpExec lit s lastIndex = Some i"
  then have bounds: "lastIndex \<le> i" "i \<le> length s" by (auto dest: regExpExec_bounds)
  have "Suc (length s) - (if lit = [] then Suc i else i + length lit)
      < Suc (length s) - lastIndex"
  proof (cases "lit = []")
    case True
    with bounds show ?thesis by simp
  next
    case False
    then have "0 < length lit" by simp
    with bounds have "Suc (length s) - (i + length lit) < Suc (length s) - lastIndex"
      by linarith
    with False show ?thesis by simp
  qed
  then show "((lit, s, if lit = [] then Suc i else i + length lit), (lit, s, lastIndex))
      \<in> measure (\<lambda>(lit, s, lastIndex). Suc (length s) - lastIndex)"
    by simp
qed

text \<open>
  \<open>s.match(regex)\<close> with a global regular expression: the matched texts, or null
  (\<open>None\<close>) when there is none.
\<close>

definition stringMatch :: "string \<Rightarrow> string \<Rightarrow> string list option" where
  "stringMatch lit s =
     (case execAll lit s 0 of
        [] \<Rightarrow> None
      | results \<Rightarrow> Some (map (\<lambda>i. substring s i (i + length lit)) results))"

text \<open>
  \<open>s.replace(regex, fn)\<close> with a global regular expression: the results are collected
  first; then the text between the matches is copied and \<open>fn\<close> gives the replacement
  of each match.
\<close>

fun replaceResults :: "string \<Rightarrow> nat \<Rightarrow> (string \<Rightarrow> string) \<Rightarrow> nat list \<Rightarrow> nat \<Rightarrow> string" where
  "replaceResults s matchLength fn [] nextSourcePosition = drop nextSourcePosition s"
| "replaceResults s matchLength fn (position # results) nextSourcePosition =
     (if nextSourcePosition \<le> position
      then substring s nextSourcePosition position @
           fn (substring s position (position + matchLength)) @
           replaceResults s matchLength fn results (position + matchLength)
      else replaceResults s matchLength fn results nextSourcePosition)"

definition stringReplace :: "string \<Rightarrow> (string \<Rightarrow> string) \<Rightarrow> string \<Rightarrow> string" where
  "stringReplace lit fn s = replaceResults s (length lit) fn (execAll lit s 0) 0"

section \<open>The substitution engine\<close>

text \<open>
  The body of the loop over the search variants, the same in \<open>replaceInFileContent\<close>
  (on the content of a file) and in \<open>renameIfMatches\<close> (on a base name). The state is
  the text and the flag \<open>hasChanges\<close>. The callback of \<open>replace\<close> sets the flag each
  time it is called, once for every result.
\<close>

definition replaceVariant :: "string \<Rightarrow> string \<times> bool \<Rightarrow> string \<Rightarrow> string \<times> bool" where
  "replaceVariant replaceWith state searchText =
     (let content = fst state; hasChanges = snd state;
          regex = regExpLiteral (escapeRegExp searchText)
      in case stringMatch regex content of
           None \<Rightarrow> (content, hasChanges)
         | Some matches \<Rightarrow>
             (stringReplace regex (\<lambda>match. preserveCase match replaceWith) content,
              hasChanges \<or> execAll regex content 0 \<noteq> []))"

text \<open>The loop \<open>for (const searchText of searchVariants)\<close>, from \<open>hasChanges = false\<close>.\<close>

definition replaceVariants :: "string \<Rightarrow> string list \<Rightarrow> string \<Rightarrow> string \<times> bool" where
  "replaceVariants content searchVariants replaceWith =
     foldl (replaceVariant replaceWith) (content, False) searchVariants"

section \<open>The substitution as the specification words it\<close>

text \<open>
  The two definitions of this section follow the words of the specification, to be
  compared with \<open>replaceVariants\<close>. \<open>specReplaceAll v r t\<close> is the global, left to
  right, literal replacement of the variant \<open>v\<close> by the text \<open>r\<close> in \<open>t\<close>: the scan
  goes on after a replaced occurrence, so the occurrences replaced do not overlap and
  the text put in is not scanned again. An empty variant occurs before every character
  and at the end.
\<close>

function specReplaceAll :: "string \<Rightarrow> string \<Rightarrow> string \<Rightarrow> string" where
  "specReplaceAll v r [] = (if v = [] then r else [])"
| "specReplaceAll v r (c # cs) =
     (if v = [] then r @ c # specReplaceAll v r cs
      else if prefix v (c # cs) then r @ specReplaceAll v r (drop (length v) (c # cs))
      else c # specReplaceAll v r cs)"
  by pat_completeness auto
termination
  by (relation "measure (\<lambda>(v, r, t). length t)") auto

text \<open>
  The explicit left fold over the variant list: step \<open>k\<close> works on the output of step
  \<open>k - 1\<close>, and puts in the replacement with the case of the variant's first character.
\<close>

definition specContentSubstitution :: "string \<Rightarrow> string list \<Rightarrow> string \<Rightarrow> string" where
  "specContentSubstitution text searchVariants replaceWith =
     foldl (\<lambda>t v. specReplaceAll v (preserveCase v replaceWith) t) text searchVariants"

section \<open>The platform\<close>

text \<open>
  The script runs on Node: the module \<open>fs\<close>, the module \<open>path\<close> and the console. The
  file system is a state of some type \<open>'w\<close>, and the functions of \<open>fs\<close> and \<open>path\<close> that
  the script calls are the fields of a record. A function of \<open>fs\<close> returns or throws.
  For a function that reads, \<open>None\<close> is the exception. A function that changes the
  file system gives \<open>True\<close> when it returned and \<open>False\<close> when it threw, with the file
  system that it left behind in both cases: nothing is assumed of what a call that
  throws has done before. \<open>existsSync\<close> never throws.
\<close>

type_synonym path = string

text \<open>What \<open>stats.isDirectory()\<close> and \<open>stats.isFile()\<close> say of an item.\<close>

datatype stats = IsFile | IsDirectory | IsOther

record 'w platform =
  readFileSync :: "path \<Rightarrow> 'w \<Rightarrow> string option"
  writeFileSync :: "path \<Rightarrow> string \<Rightarrow> 'w \<Rightarrow> bool \<times> 'w"
  renameSync :: "path \<Rightarrow> path \<Rightarrow> 'w \<Rightarrow> bool \<times> 'w"
  readdirSync :: "path \<Rightarrow> 'w \<Rightarrow> string list option"
  statSync :: "path \<Rightarrow> 'w \<Rightarrow> stats option"
  existsSync :: "path \<Rightarrow> 'w \<Rightarrow> bool"
  pathJoin :: "path \<Rightarrow> string \<Rightarrow> path"
  pathDirname :: "path \<Rightarrow> path"
  pathBasename :: "path \<Rightarrow> string"
  pathResolve :: "string \<Rightarrow> path"

text \<open>
  The messages of \<open>console.error\<close>, and the usage text of \<open>console.log\<close>. The progress
  lines that \<open>console.log\<close> prints are not modelled.
\<close>

datatype message =
    Usage
  | ReplacementEmpty
  | RootPathMissing path
  | RootPathNotDirectory path
  | FileContentError path
  | RenameError path
  | DirectoryError path

text \<open>
  What a run does, in order: each call of \<open>fs\<close> with what it returned (\<open>None\<close> or
  \<open>False\<close> when it threw), and each message.
\<close>

datatype event =
    ReadFile path "string option"
  | WriteFile path string bool
  | Rename path path bool
  | ReadDir path "string list option"
  | Stat path "stats option"
  | Exists path bool
  | ConsoleError message
  | ConsoleLog message

section \<open>Files and directories\<close>

definition ignoredFolders :: "string list" where
  "ignoredFolders = [''.git'', ''bin'', ''obj'', ''node_modules'', ''dist'']"

definition shouldIgnoreFolder :: "string \<Rightarrow> bool" where
  "shouldIgnoreFolder folderName = (folderName \<in> set ignoredFolders)"

text \<open>
  \<open>replaceInFileContent\<close>: the result is the value returned, the file system after the
  call and the events of the call. Both \<open>readFileSync\<close> and \<open>writeFileSync\<close> stand in
  the \<open>try\<close> block, whose handler prints the error and returns \<open>false\<close>.
\<close>

definition replaceInFileContent ::
  "'w platform \<Rightarrow> path \<Rightarrow> string list \<Rightarrow> string \<Rightarrow> 'w \<Rightarrow> bool \<times> 'w \<times> event list" where
  "replaceInFileContent P filePath searchVariants replaceWith w =
     (case readFileSync P filePath w of
        None \<Rightarrow> (False, w, [ReadFile filePath None, ConsoleError (FileContentError filePath)])
      | Some text \<Rightarrow>
          (case replaceVariants text searchVariants replaceWith of
             (content, hasChanges) \<Rightarrow>
               if hasChanges then
                 (case writeFileSync P filePath content w of
                    (False, w') \<Rightarrow>
                      (False, w',
                       [ReadFile filePath (Some text), WriteFile filePath content False,
                        ConsoleError (FileContentError filePath)])
                  | (True, w') \<Rightarrow>
                      (True, w',
                       [ReadFile filePath (Some text), WriteFile filePath content True]))
               else (False, w, [ReadFile filePath (Some text)])))"

text \<open>
  \<open>renameIfMatches\<close>: the new path when the item was renamed, \<open>None\<close> for \<open>null\<close>.
\<close>

definition renameIfMatches ::
  "'w platform \<Rightarrow> path \<Rightarrow> string list \<Rightarrow> string \<Rightarrow> 'w \<Rightarrow> path option \<times> 'w \<times> event list" where
  "renameIfMatches P itemPath searchVariants replaceWith w =
     (let itemName = pathBasename P itemPath in
      case replaceVariants itemName searchVariants replaceWith of
        (newName, hasChanges) \<Rightarrow>
          if hasChanges then
            (let newPath = pathJoin P (pathDirname P itemPath) newName in
             case renameSync P itemPath newPath w of
               (True, w') \<Rightarrow> (Some newPath, w', [Rename itemPath newPath True])
             | (False, w') \<Rightarrow>
                 (None, w', [Rename itemPath newPath False, ConsoleError (RenameError itemPath)]))
          else (None, w, []))"

text \<open>
  The first loop of \<open>processDirectory\<close>: every item is looked at with \<open>statSync\<close>;
  a directory goes to \<open>directories\<close> unless its name is to be ignored, a file goes to
  \<open>files\<close>. The result is \<open>None\<close> when \<open>statSync\<close> threw, which ends the loop.
\<close>

fun collectItems ::
  "'w platform \<Rightarrow> path \<Rightarrow> string list \<Rightarrow> 'w \<Rightarrow> (path list \<times> path list) option \<times> event list" where
  "collectItems P dirPath [] w = (Some ([], []), [])"
| "collectItems P dirPath (item # items) w =
     (let fullPath = pathJoin P dirPath item in
      case statSync P fullPath w of
        None \<Rightarrow> (None, [Stat fullPath None])
      | Some st \<Rightarrow>
          (case collectItems P dirPath items w of
             (None, events) \<Rightarrow> (None, Stat fullPath (Some st) # events)
           | (Some (directories, files), events) \<Rightarrow>
               (Some (if st = IsDirectory
                      then (if \<not> shouldIgnoreFolder item then (fullPath # directories, files)
                            else (directories, files))
                      else if st = IsFile then (directories, fullPath # files)
                      else (directories, files)),
                Stat fullPath (Some st) # events)))"

text \<open>The second loop: the content of each file, then its name.\<close>

fun processFiles ::
  "'w platform \<Rightarrow> path list \<Rightarrow> string list \<Rightarrow> string \<Rightarrow> 'w \<Rightarrow> 'w \<times> event list" where
  "processFiles P [] searchVariants replaceWith w = (w, [])"
| "processFiles P (filePath # files) searchVariants replaceWith w =
     (case replaceInFileContent P filePath searchVariants replaceWith w of
        (changed, w1, contentEvents) \<Rightarrow>
          (case renameIfMatches P filePath searchVariants replaceWith w1 of
             (newPath, w2, renameEvents) \<Rightarrow>
               (case processFiles P files searchVariants replaceWith w2 of
                  (w3, events) \<Rightarrow> (w3, contentEvents @ renameEvents @ events))))"

text \<open>
  The third loop: each directory is renamed if its name matches, then processed under
  the path it now has (\<open>newDirPath || dirPath\<close>). \<open>recurse\<close> is the recursive call of
  \<open>processDirectory\<close>; its first result says whether it ran to its end.
\<close>

fun processDirectories ::
  "(path \<Rightarrow> 'w \<Rightarrow> bool \<times> 'w \<times> event list) \<Rightarrow> 'w platform \<Rightarrow> path list \<Rightarrow> string list \<Rightarrow>
   string \<Rightarrow> 'w \<Rightarrow> bool \<times> 'w \<times> event list" where
  "processDirectories recurse P [] searchVariants replaceWith w = (True, w, [])"
| "processDirectories recurse P (dirPath # directories) searchVariants replaceWith w =
     (case renameIfMatches P dirPath searchVariants replaceWith w of
        (newDirPath, w1, renameEvents) \<Rightarrow>
          (let pathToProcess =
                 (case newDirPath of
                    Some newPath \<Rightarrow> if newPath = [] then dirPath else newPath
                  | None \<Rightarrow> dirPath)
           in case recurse pathToProcess w1 of
                (finished, w2, events) \<Rightarrow>
                  if \<not> finished then (False, w2, renameEvents @ events)
                  else (case processDirectories recurse P directories searchVariants replaceWith w2 of
                          (finished', w3, rest) \<Rightarrow> (finished', w3, renameEvents @ events @ rest))))"

text \<open>
  \<open>processDirectory\<close>. The recursion follows the directories of the file system, and
  nothing in the script bounds it, so the model gives it fuel: the number of nested
  calls it may make. The first result is \<open>True\<close> when the call ran to its end, and
  \<open>False\<close> when the fuel ran out, with the events up to that point. An exception of
  \<open>readdirSync\<close> or \<open>statSync\<close> ends the call in its handler, which prints the error.
\<close>

fun processDirectory ::
  "'w platform \<Rightarrow> nat \<Rightarrow> path \<Rightarrow> string list \<Rightarrow> string \<Rightarrow> 'w \<Rightarrow> bool \<times> 'w \<times> event list" where
  "processDirectory P 0 dirPath searchVariants replaceWith w = (False, w, [])"
| "processDirectory P (Suc fuel) dirPath searchVariants replaceWith w =
     (case readdirSync P dirPath w of
        None \<Rightarrow> (True, w, [ReadDir dirPath None, ConsoleError (DirectoryError dirPath)])
      | Some items \<Rightarrow>
          (case collectItems P dirPath items w of
             (None, statEvents) \<Rightarrow>
               (True, w,
                ReadDir dirPath (Some items) # statEvents @ [ConsoleError (DirectoryError dirPath)])
           | (Some (directories, files), statEvents) \<Rightarrow>
               (case processFiles P files searchVariants replaceWith w of
                  (w1, fileEvents) \<Rightarrow>
                    (case processDirectories
                            (\<lambda>p w'. processDirectory P fuel p searchVariants replaceWith w')
                            P directories searchVariants replaceWith w1 of
                       (finished, w2, dirEvents) \<Rightarrow>
                         (finished, w2,
                          ReadDir dirPath (Some items) # statEvents @ fileEvents @ dirEvents)))))"

section \<open>The command line\<close>

text \<open>\<open>String.prototype.trim\<close>: white space is removed at both ends.\<close>

definition trim :: "string \<Rightarrow> string" where
  "trim s = rev (dropWhile isWhiteSpace (rev (dropWhile isWhiteSpace s)))"

text \<open>
  How the process ends: \<open>process.exit\<close> with a status, the end of \<open>main\<close>, or an
  exception that nothing catches. \<open>OutOfFuel\<close> belongs to the model: the fuel of
  \<open>processDirectory\<close> ran out.
\<close>

datatype outcome = ProcessExit nat | Completed | UncaughtException | OutOfFuel

text \<open>\<open>main\<close>, on the arguments \<open>process.argv.slice(2)\<close>.\<close>

definition main :: "'w platform \<Rightarrow> nat \<Rightarrow> string list \<Rightarrow> 'w \<Rightarrow> outcome \<times> 'w \<times> event list" where
  "main P fuel args w =
     (if length args < 3 then (ProcessExit 1, w, [ConsoleLog Usage])
      else
        (let rootPath = pathResolve P (args ! 0);
             searchText = args ! 1;
             replaceWith = args ! 2
         in if trim replaceWith = [] then (ProcessExit 1, w, [ConsoleError ReplacementEmpty])
            else if \<not> existsSync P rootPath w
            then (ProcessExit 1, w,
                  [Exists rootPath False, ConsoleError (RootPathMissing rootPath)])
            else
              (case statSync P rootPath w of
                 None \<Rightarrow> (UncaughtException, w, [Exists rootPath True, Stat rootPath None])
               | Some st \<Rightarrow>
                   if st \<noteq> IsDirectory
                   then (ProcessExit 1, w,
                         [Exists rootPath True, Stat rootPath (Some st),
                          ConsoleError (RootPathNotDirectory rootPath)])
                   else
                     (case processDirectory P fuel rootPath (generateVariants searchText)
                             replaceWith w of
                        (finished, w', events) \<Rightarrow>
                          (if finished then Completed else OutOfFuel, w',
                           [Exists rootPath True, Stat rootPath (Some st)] @ events)))))"

section \<open>A file system in memory\<close>

text \<open>
  A small platform on which the model runs on concrete inputs: the file system is a list
  of paths with what stands there, a path is a text with \<open>/\<close> between its components,
  a file can be read-only, and a rename fails when there is nothing to rename or when
  the new path is taken. An operation that fails leaves this file system as it was.
\<close>

datatype node = FileNode string bool | DirNode

type_synonym memfs = "(path \<times> node) list"

definition memJoin :: "path \<Rightarrow> string \<Rightarrow> path" where
  "memJoin d name = d @ ''/'' @ name"

definition memBasename :: "path \<Rightarrow> string" where
  "memBasename p = rev (takeWhile (\<lambda>c. c \<noteq> CHR ''/'') (rev p))"

definition memDirname :: "path \<Rightarrow> path" where
  "memDirname p = rev (drop 1 (dropWhile (\<lambda>c. c \<noteq> CHR ''/'') (rev p)))"

definition memRead :: "path \<Rightarrow> memfs \<Rightarrow> string option" where
  "memRead p w = (case map_of w p of Some (FileNode content writable) \<Rightarrow> Some content | _ \<Rightarrow> None)"

definition memWrite :: "path \<Rightarrow> string \<Rightarrow> memfs \<Rightarrow> bool \<times> memfs" where
  "memWrite p content w =
     (case map_of w p of
        Some (FileNode old writable) \<Rightarrow>
          if writable
          then (True, map (\<lambda>(q, n). if q = p then (q, FileNode content True) else (q, n)) w)
          else (False, w)
      | _ \<Rightarrow> (False, w))"

definition memRename :: "path \<Rightarrow> path \<Rightarrow> memfs \<Rightarrow> bool \<times> memfs" where
  "memRename src dst w =
     (if map_of w src = None \<or> map_of w dst \<noteq> None then (False, w)
      else (True, map (\<lambda>(q, n).
                   (if q = src then dst
                    else if prefix (src @ ''/'') q then dst @ drop (length src) q
                    else q, n)) w))"

definition memReaddir :: "path \<Rightarrow> memfs \<Rightarrow> string list option" where
  "memReaddir d w =
     (case map_of w d of
        Some DirNode \<Rightarrow> Some (map (\<lambda>(q, n). memBasename q) (filter (\<lambda>(q, n). memDirname q = d) w))
      | _ \<Rightarrow> None)"

definition memStat :: "path \<Rightarrow> memfs \<Rightarrow> stats option" where
  "memStat p w =
     (case map_of w p of
        None \<Rightarrow> None
      | Some (FileNode content writable) \<Rightarrow> Some IsFile
      | Some DirNode \<Rightarrow> Some IsDirectory)"

definition memPlatform :: "memfs platform" where
  "memPlatform =
     \<lparr>readFileSync = memRead, writeFileSync = memWrite, renameSync = memRename,
      readdirSync = memReaddir, statSync = memStat,
      existsSync = (\<lambda>p w. map_of w p \<noteq> None),
      pathJoin = memJoin, pathDirname = memDirname, pathBasename = memBasename,
      pathResolve = (\<lambda>p. p)\<rparr>"

section \<open>Properties of a run\<close>

text \<open>
  Two properties of the events of a run, used to state what the traversal selects.
  \<open>entersOnly P roots events\<close>: every directory that is listed is one of \<open>roots\<close>, or
  has a base name that is not ignored, or is the new path of a rename, made earlier or
  later in \<open>events\<close>, of an item whose base name is not ignored.
  \<open>renamesOnly P events\<close>: every item that \<open>renameSync\<close> is called on has a base name
  that is not ignored, or is an item that \<open>statSync\<close> reported as a file.
\<close>

definition entersOnly :: "'w platform \<Rightarrow> path set \<Rightarrow> event list \<Rightarrow> bool" where
  "entersOnly P roots events =
     (\<forall>q res. ReadDir q res \<in> set events \<longrightarrow>
        q \<in> roots \<or> \<not> shouldIgnoreFolder (pathBasename P q) \<or>
        (\<exists>src. Rename src q True \<in> set events \<and> \<not> shouldIgnoreFolder (pathBasename P src)))"

definition renamesOnly :: "'w platform \<Rightarrow> event list \<Rightarrow> bool" where
  "renamesOnly P events =
     (\<forall>src dst ok. Rename src dst ok \<in> set events \<longrightarrow>
        \<not> shouldIgnoreFolder (pathBasename P src) \<or> Stat src (Some IsFile) \<in> set events)"

text \<open>
  The paths on which a run called \<open>readFileSync\<close>, \<open>writeFileSync\<close> and \<open>renameSync\<close>,
  in the order of the calls, a path once for each call.
\<close>

definition readAttempts :: "event list \<Rightarrow> path list" where
  "readAttempts events =
     concat (map (\<lambda>e. case e of ReadFile p res \<Rightarrow> [p] | _ \<Rightarrow> []) events)"

definition writeAttempts :: "event list \<Rightarrow> path list" where
  "writeAttempts events =
     concat (map (\<lambda>e. case e of WriteFile p content ok \<Rightarrow> [p] | _ \<Rightarrow> []) events)"

definition renameAttempts :: "event list \<Rightarrow> path list" where
  "renameAttempts events =
     concat (map (\<lambda>e. case e of Rename src dst ok \<Rightarrow> [src] | _ \<Rightarrow> []) events)"

section \<open>Facts about the set of variants\<close>

lemma remdups_append_mem:
  "x \<in> set zs \<Longrightarrow> remdups (ys @ x # zs) = remdups (ys @ zs)"
  by (induction ys) auto

lemma foldl_setAdd_first:
  "distinct acc \<Longrightarrow> foldl setAdd acc xs = rev (remdups (rev (acc @ xs)))"
proof (induction xs arbitrary: acc)
  case Nil
  then show ?case by (simp add: distinct_remdups_id)
next
  case (Cons x xs)
  show ?case
  proof (cases "x \<in> set acc")
    case True
    then have "foldl setAdd acc (x # xs) = foldl setAdd acc xs" by (simp add: setAdd_def)
    also have "\<dots> = rev (remdups (rev (acc @ xs)))" using Cons by simp
    also have "\<dots> = rev (remdups (rev (acc @ x # xs)))"
      using True remdups_append_mem [of x "rev acc" "rev xs"] by simp
    finally show ?thesis .
  next
    case False
    then have "foldl setAdd acc (x # xs) = foldl setAdd (acc @ [x]) xs" by (simp add: setAdd_def)
    also have "\<dots> = rev (remdups (rev ((acc @ [x]) @ xs)))"
      using False Cons.prems by (intro Cons.IH) simp
    finally show ?thesis by simp
  qed
qed

lemma newSet_first: "newSet xs = rev (remdups (rev xs))"
  unfolding newSet_def using foldl_setAdd_first [of "[]" xs] by simp

lemma newSet_distinct: "distinct (newSet xs)"
  by (simp add: newSet_first)

lemma newSet_set: "set (newSet xs) = set xs"
  by (simp add: newSet_first)

lemma foldl_setAdd_prefix: "prefix acc (foldl setAdd acc xs)"
proof (induction xs arbitrary: acc)
  case Nil
  show ?case by simp
next
  case (Cons x xs)
  have "prefix acc (setAdd acc x)" by (simp add: setAdd_def)
  moreover have "prefix (setAdd acc x) (foldl setAdd (setAdd acc x) xs)" by (rule Cons.IH)
  ultimately show ?case by (auto intro: prefix_order.trans)
qed

lemma newSet_Cons: "\<exists>rest. newSet (x # xs) = x # rest"
proof -
  have "prefix [x] (foldl setAdd [x] xs)" by (rule foldl_setAdd_prefix)
  then show ?thesis by (auto simp: newSet_def setAdd_def prefix_def)
qed

lemma foldl_setAdd_subseq: "subseq (foldl setAdd acc xs) (acc @ xs)"
proof (induction xs arbitrary: acc)
  case Nil
  show ?case by simp
next
  case (Cons x xs)
  show ?case
  proof (cases "x \<in> set acc")
    case True
    then have "foldl setAdd acc (x # xs) = foldl setAdd acc xs" by (simp add: setAdd_def)
    moreover have "subseq xs (x # xs)" by (rule list_emb_Cons) simp
    then have "subseq (acc @ xs) (acc @ x # xs)" by (simp only: subseq_append')
    ultimately show ?thesis using Cons.IH [of acc] by (metis subseq_order.trans)
  next
    case False
    then have "foldl setAdd acc (x # xs) = foldl setAdd (acc @ [x]) xs" by (simp add: setAdd_def)
    then show ?thesis using Cons.IH [of "acc @ [x]"] by simp
  qed
qed

lemma newSet_subseq: "subseq (newSet xs) xs"
  unfolding newSet_def using foldl_setAdd_subseq [of "[]" xs] by simp

section \<open>Facts about literal patterns\<close>

lemma regExpLiteral_escapeRegExp: "regExpLiteral (escapeRegExp s) = s"
proof (induction s)
  case Nil
  show ?case by (simp add: escapeRegExp_def)
next
  case (Cons c s)
  have step: "escapeRegExp (c # s) =
      (if c \<in> set regExpSyntaxChars then [backslash, c] else [c]) @ escapeRegExp s"
    by (simp add: escapeRegExp_def)
  show ?case
  proof (cases "c \<in> set regExpSyntaxChars")
    case True
    then show ?thesis using Cons step by simp
  next
    case False
    then have "c \<noteq> backslash" by (auto simp: regExpSyntaxChars_def)
    then show ?thesis using False Cons step by (cases "escapeRegExp s") simp_all
  qed
qed

declare execAll.simps [simp del]
declare specReplaceAll.simps [simp del]

lemma matchesAt_prefix:
  assumes "i \<le> length s"
  shows "matchesAt lit s i \<longleftrightarrow> prefix lit (drop i s)"
proof
  assume "matchesAt lit s i"
  then have "take (length lit) (drop i s) = lit" by (simp add: matchesAt_def substring_def)
  then have "drop i s = lit @ drop (length lit) (drop i s)"
    by (metis append_take_drop_id)
  then show "prefix lit (drop i s)" by (metis prefixI)
next
  note i = assms
  assume "prefix lit (drop i s)"
  then obtain zs where zs: "drop i s = lit @ zs" by (auto simp: prefix_def)
  then have "length (drop i s) = length lit + length zs" by simp
  then have "i + length lit \<le> length s" using i by simp
  moreover have "take (length lit) (drop i s) = lit" using zs by simp
  ultimately show "matchesAt lit s i" by (simp add: matchesAt_def substring_def)
qed

lemma matchesAt_empty: "matchesAt [] s i \<longleftrightarrow> i \<le> length s"
  by (simp add: matchesAt_def substring_def)

lemma regExpExec_match: "i \<le> length s \<Longrightarrow> matchesAt lit s i \<Longrightarrow> regExpExec lit s i = Some i"
  by (simp add: regExpExec.simps [of lit s i])

lemma regExpExec_skip:
  "i \<le> length s \<Longrightarrow> \<not> matchesAt lit s i \<Longrightarrow> regExpExec lit s i = regExpExec lit s (Suc i)"
  by (simp add: regExpExec.simps [of lit s i])

lemma regExpExec_past: "length s < i \<Longrightarrow> regExpExec lit s i = None"
  by (simp add: regExpExec.simps [of lit s i])

lemma execAll_match:
  "i \<le> length s \<Longrightarrow> matchesAt lit s i \<Longrightarrow>
   execAll lit s i = i # execAll lit s (if lit = [] then Suc i else i + length lit)"
  by (simp add: execAll.simps [of lit s i] regExpExec_match)

lemma execAll_skip:
  "i \<le> length s \<Longrightarrow> \<not> matchesAt lit s i \<Longrightarrow> execAll lit s i = execAll lit s (Suc i)"
  by (simp add: execAll.simps [of lit s i] execAll.simps [of lit s "Suc i"] regExpExec_skip)

lemma execAll_past: "length s < i \<Longrightarrow> execAll lit s i = []"
  by (simp add: execAll.simps [of lit s i] regExpExec_past)

lemma substring_Suc:
  "nsp \<le> i \<Longrightarrow> i < length s \<Longrightarrow> substring s nsp (Suc i) = substring s nsp i @ [s ! i]"
proof -
  assume a: "nsp \<le> i" "i < length s"
  then have "Suc i - nsp = Suc (i - nsp)" by simp
  moreover have "i - nsp < length (drop nsp s)" using a by simp
  moreover have "drop nsp s ! (i - nsp) = s ! i" using a by simp
  ultimately show ?thesis by (simp add: substring_def take_Suc_conv_app_nth)
qed

lemma replaceResults_spec:
  "nsp \<le> i \<Longrightarrow> i \<le> length s \<Longrightarrow>
   replaceResults s (length lit) fn (execAll lit s i) nsp =
     substring s nsp i @ specReplaceAll lit (fn lit) (drop i s)"
proof (induction "length s - i" arbitrary: i nsp rule: less_induct)
  case less
  show ?case
  proof (cases "matchesAt lit s i")
    case True
    then have here: "substring s i (i + length lit) = lit" and fits: "i + length lit \<le> length s"
      by (auto simp: matchesAt_def)
    show ?thesis
    proof (cases "lit = []")
      case empty: True
      have ex: "execAll lit s i = i # execAll lit s (Suc i)"
        using execAll_match [OF less.prems(2) True] empty by simp
      show ?thesis
      proof (cases "i < length s")
        case inside: True
        have ih: "replaceResults s (length lit) fn (execAll lit s (Suc i)) i =
                    substring s i (Suc i) @ specReplaceAll lit (fn lit) (drop (Suc i) s)"
          using inside by (intro less.hyps) auto
        have d: "drop i s = s ! i # drop (Suc i) s" using inside by (simp add: Cons_nth_drop_Suc)
        have one: "substring s i (Suc i) = [s ! i]"
          using inside by (simp add: substring_def take_Suc_conv_app_nth)
        show ?thesis
          using less.prems ex ih here empty one
          by (simp add: d specReplaceAll.simps)
      next
        case False
        with less.prems have eq: "i = length s" by simp
        then have "execAll lit s (Suc i) = []" by (simp add: execAll_past)
        then show ?thesis using less.prems ex here empty eq
          by (simp add: specReplaceAll.simps)
      qed
    next
      case nonempty: False
      then have pos: "0 < length lit" by simp
      have ex: "execAll lit s i = i # execAll lit s (i + length lit)"
        using execAll_match [OF less.prems(2) True] nonempty by simp
      have "length s - (i + length lit) < length s - i" using pos fits by linarith
      then have ih: "replaceResults s (length lit) fn (execAll lit s (i + length lit)) (i + length lit) =
                  substring s (i + length lit) (i + length lit) @
                  specReplaceAll lit (fn lit) (drop (i + length lit) s)"
        using fits by (intro less.hyps) auto
      have inside: "i < length s" using pos fits by linarith
      have d: "drop i s = s ! i # drop (Suc i) s" using inside by (simp add: Cons_nth_drop_Suc)
      have pre: "prefix lit (drop i s)" using True less.prems by (simp add: matchesAt_prefix)
      have "specReplaceAll lit (fn lit) (drop i s) =
              fn lit @ specReplaceAll lit (fn lit) (drop (length lit) (drop i s))"
        using pre nonempty d by (simp add: specReplaceAll.simps del: drop_drop)
      moreover have "drop (length lit) (drop i s) = drop (i + length lit) s" by (simp add: add.commute)
      ultimately show ?thesis
        using less.prems ex ih here by (simp add: substring_def)
    qed
  next
    case False
    then have nonempty: "lit \<noteq> []" using less.prems by (auto simp: matchesAt_empty)
    show ?thesis
    proof (cases "i < length s")
      case inside: True
      have ex: "execAll lit s i = execAll lit s (Suc i)"
        using execAll_skip [OF less.prems(2) False] .
      have ih: "replaceResults s (length lit) fn (execAll lit s (Suc i)) nsp =
                  substring s nsp (Suc i) @ specReplaceAll lit (fn lit) (drop (Suc i) s)"
        using inside less.prems by (intro less.hyps) auto
      have d: "drop i s = s ! i # drop (Suc i) s" using inside by (simp add: Cons_nth_drop_Suc)
      have "\<not> prefix lit (drop i s)" using False less.prems by (simp add: matchesAt_prefix)
      then have "specReplaceAll lit (fn lit) (drop i s) =
                   s ! i # specReplaceAll lit (fn lit) (drop (Suc i) s)"
        using nonempty d by (simp add: specReplaceAll.simps)
      then show ?thesis
        using ex ih substring_Suc [OF less.prems(1) inside] by simp
    next
      case outside: False
      with less.prems have eq: "i = length s" by simp
      have "execAll lit s i = execAll lit s (Suc i)"
        using execAll_skip [OF less.prems(2) False] .
      then have "execAll lit s i = []" using eq by (simp add: execAll_past)
      then show ?thesis using eq nonempty less.prems
        by (simp add: specReplaceAll.simps substring_def)
    qed
  qed
qed

lemma stringReplace_spec: "stringReplace lit fn s = specReplaceAll lit (fn lit) s"
  unfolding stringReplace_def using replaceResults_spec [of 0 0 s lit fn]
  by (simp add: substring_def)

lemma stringMatch_None: "stringMatch lit s = None \<longleftrightarrow> execAll lit s 0 = []"
  by (simp add: stringMatch_def split: list.splits)

lemma stringReplace_no_results: "execAll lit s 0 = [] \<Longrightarrow> stringReplace lit fn s = s"
  by (simp add: stringReplace_def)


section \<open>Facts about the substitution engine\<close>

lemma replaceVariant_fst:
  "fst (replaceVariant r st v) = specReplaceAll v (preserveCase v r) (fst st)"
proof (cases "execAll v (fst st) 0 = []")
  case True
  then have "stringMatch v (fst st) = None" by (simp add: stringMatch_None)
  moreover have "specReplaceAll v (preserveCase v r) (fst st) = fst st"
    using stringReplace_no_results [OF True, of "\<lambda>match. preserveCase match r"]
    by (simp add: stringReplace_spec)
  ultimately show ?thesis
    by (simp add: replaceVariant_def Let_def regExpLiteral_escapeRegExp)
next
  case False
  then obtain ms where "stringMatch v (fst st) = Some ms"
    using stringMatch_None [of v "fst st"] by (cases "stringMatch v (fst st)") auto
  then show ?thesis
    by (simp add: replaceVariant_def Let_def regExpLiteral_escapeRegExp stringReplace_spec)
qed

lemma replaceVariant_snd:
  "snd (replaceVariant r st v) = (snd st \<or> execAll v (fst st) 0 \<noteq> [])"
proof (cases "execAll v (fst st) 0 = []")
  case True
  then have "stringMatch v (fst st) = None" by (simp add: stringMatch_None)
  then show ?thesis using True
    by (simp add: replaceVariant_def Let_def regExpLiteral_escapeRegExp)
next
  case False
  then obtain ms where "stringMatch v (fst st) = Some ms"
    using stringMatch_None [of v "fst st"] by (cases "stringMatch v (fst st)") auto
  then show ?thesis using False
    by (simp add: replaceVariant_def Let_def regExpLiteral_escapeRegExp)
qed

lemma foldl_replaceVariant_fst:
  "fst (foldl (replaceVariant r) st vs) =
     foldl (\<lambda>t v. specReplaceAll v (preserveCase v r) t) (fst st) vs"
  by (induction vs arbitrary: st) (simp_all add: replaceVariant_fst)

lemma matchesAt_split:
  "matchesAt lit s i \<longleftrightarrow> (\<exists>ps ss. s = ps @ lit @ ss \<and> length ps = i)"
proof
  assume m: "matchesAt lit s i"
  then have le: "i + length lit \<le> length s" by (simp add: matchesAt_def)
  then have "prefix lit (drop i s)" using m by (simp add: matchesAt_prefix)
  then obtain ss where "drop i s = lit @ ss" by (auto simp: prefix_def)
  then have "s = take i s @ lit @ ss" by (metis append_take_drop_id)
  moreover have "length (take i s) = i" using le by simp
  ultimately show "\<exists>ps ss. s = ps @ lit @ ss \<and> length ps = i" by blast
next
  assume "\<exists>ps ss. s = ps @ lit @ ss \<and> length ps = i"
  then obtain ps ss where "s = ps @ lit @ ss" "length ps = i" by blast
  then show "matchesAt lit s i" by (simp add: matchesAt_def substring_def)
qed

lemma regExpExec_None:
  "regExpExec lit s i = None \<longleftrightarrow> (\<forall>j. i \<le> j \<and> j \<le> length s \<longrightarrow> \<not> matchesAt lit s j)"
proof (induction lit s i rule: regExpExec.induct)
  case (1 lit s i)
  show ?case
  proof (cases "length s < i")
    case True
    then have "\<forall>j. i \<le> j \<and> j \<le> length s \<longrightarrow> \<not> matchesAt lit s j" by auto
    with True show ?thesis by (simp add: regExpExec_past)
  next
    case False
    then have le: "i \<le> length s" by simp
    show ?thesis
    proof (cases "matchesAt lit s i")
      case True
      then show ?thesis using le by (auto simp: regExpExec_match)
    next
      case no: False
      have "regExpExec lit s i = regExpExec lit s (Suc i)" using le no by (rule regExpExec_skip)
      moreover have "(\<forall>j. i \<le> j \<and> j \<le> length s \<longrightarrow> \<not> matchesAt lit s j) \<longleftrightarrow>
                     (\<forall>j. Suc i \<le> j \<and> j \<le> length s \<longrightarrow> \<not> matchesAt lit s j)"
        using no by (metis Suc_leD Suc_leI le_neq_implies_less)
      ultimately show ?thesis using "1.IH" [OF False no] by simp
    qed
  qed
qed

lemma execAll_Nil: "execAll lit s i = [] \<longleftrightarrow> regExpExec lit s i = None"
  by (simp add: execAll.simps [of lit s i] split: option.splits)

lemma execAll_sublist: "execAll lit s 0 \<noteq> [] \<longleftrightarrow> sublist lit s"
proof -
  have "execAll lit s 0 \<noteq> [] \<longleftrightarrow> (\<exists>j. j \<le> length s \<and> matchesAt lit s j)"
    by (simp add: execAll_Nil regExpExec_None)
  also have "\<dots> \<longleftrightarrow> (\<exists>j. matchesAt lit s j)"
  proof
    assume "\<exists>j. matchesAt lit s j"
    then obtain j where j: "matchesAt lit s j" by blast
    then have "j \<le> length s" by (simp add: matchesAt_def)
    with j show "\<exists>j. j \<le> length s \<and> matchesAt lit s j" by blast
  qed blast
  also have "\<dots> \<longleftrightarrow> (\<exists>ps ss. s = ps @ lit @ ss)"
    unfolding matchesAt_split by blast
  finally show ?thesis by (simp add: sublist_def)
qed

lemma replaceVariants_snoc:
  "replaceVariants text (vs @ [v]) r = replaceVariant r (replaceVariants text vs r) v"
  by (simp add: replaceVariants_def)

lemma replaceVariant_unchanged:
  "\<not> snd (replaceVariant r st v) \<Longrightarrow> fst (replaceVariant r st v) = fst st"
proof -
  assume "\<not> snd (replaceVariant r st v)"
  then have "execAll v (fst st) 0 = []" by (simp add: replaceVariant_snd)
  then show ?thesis
    using stringReplace_no_results [of v "fst st" "\<lambda>match. preserveCase match r"]
    by (simp add: replaceVariant_fst stringReplace_spec)
qed

lemma replaceVariants_flag:
  "(snd (replaceVariants text searchVariants replaceWith) \<longleftrightarrow>
      (\<exists>k < length searchVariants.
         sublist (searchVariants ! k)
           (fst (replaceVariants text (take k searchVariants) replaceWith)))) \<and>
   (fst (replaceVariants text searchVariants replaceWith) \<noteq> text \<longrightarrow>
      snd (replaceVariants text searchVariants replaceWith))"
proof (induction searchVariants rule: rev_induct)
  case Nil
  show ?case by (simp add: replaceVariants_def)
next
  case (snoc v vs)
  let ?st = "replaceVariants text vs replaceWith"
  have flag: "snd (replaceVariants text (vs @ [v]) replaceWith) \<longleftrightarrow> snd ?st \<or> sublist v (fst ?st)"
    by (simp add: replaceVariants_snoc replaceVariant_snd execAll_sublist)
  have "(\<exists>k < length (vs @ [v]). sublist ((vs @ [v]) ! k)
            (fst (replaceVariants text (take k (vs @ [v])) replaceWith))) \<longleftrightarrow>
        (\<exists>k < length vs. sublist (vs ! k) (fst (replaceVariants text (take k vs) replaceWith))) \<or>
        sublist v (fst ?st)"
    (is "?L \<longleftrightarrow> ?A \<or> ?B")
  proof
    assume ?L
    then obtain k where k: "k < length (vs @ [v])" 
      "sublist ((vs @ [v]) ! k) (fst (replaceVariants text (take k (vs @ [v])) replaceWith))" by blast
    show "?A \<or> ?B"
    proof (cases "k < length vs")
      case True
      then show ?thesis using k by (auto simp: nth_append)
    next
      case False
      then have "k = length vs" using k by simp
      then show ?thesis using k by simp
    qed
  next
    assume "?A \<or> ?B"
    then show ?L
    proof
      assume ?A
      then obtain k where "k < length vs" "sublist (vs ! k) (fst (replaceVariants text (take k vs) replaceWith))" by blast
      then show ?L by (intro exI [of _ k]) (simp add: nth_append)
    next
      assume ?B
      then show ?L by (intro exI [of _ "length vs"]) simp
    qed
  qed
  with flag snoc have first: "snd (replaceVariants text (vs @ [v]) replaceWith) \<longleftrightarrow> ?L" by simp
  have second: "fst (replaceVariants text (vs @ [v]) replaceWith) \<noteq> text \<longrightarrow>
      snd (replaceVariants text (vs @ [v]) replaceWith)"
  proof (rule ccontr)
    assume "\<not> ?thesis"
    then have ne: "fst (replaceVariants text (vs @ [v]) replaceWith) \<noteq> text"
      and no: "\<not> snd (replaceVariants text (vs @ [v]) replaceWith)" by auto
    from no have "fst (replaceVariants text (vs @ [v]) replaceWith) = fst ?st"
      unfolding replaceVariants_snoc by (rule replaceVariant_unchanged)
    moreover from no have "\<not> snd ?st" using flag by simp
    moreover from snoc have "fst ?st \<noteq> text \<longrightarrow> snd ?st" by blast
    ultimately show False using ne by simp
  qed
  from first second show ?case by blast
qed

lemma replaceInFileContent_returns:
  assumes "readFileSync P f w = Some oldContent"
    and "writeFileSync P f (fst (replaceVariants oldContent vs r)) w = (True, w')"
  shows "replaceInFileContent P f vs r w =
     (if snd (replaceVariants oldContent vs r)
      then (True, w', [ReadFile f (Some oldContent),
                       WriteFile f (fst (replaceVariants oldContent vs r)) True])
      else (False, w, [ReadFile f (Some oldContent)]))"
  using assms by (auto simp: replaceInFileContent_def split: prod.splits)

section \<open>Facts about the case mappings\<close>

lemma charCode_inject: "charCode c = charCode d \<longleftrightarrow> c = d"
  by (simp add: charCode_def)

lemma toUpperCase_single: "toUpperCase [c] = toUpperChar c"
  by (simp add: toUpperCase_def)

lemma toLowerCase_single: "toLowerCase [c] = [toLowerChar c]"
  by (simp add: toLowerCase_def)

lemma toUpperChar_fixed:
  "toUpperChar c = [c] \<longleftrightarrow>
     \<not> ((97 \<le> charCode c \<and> charCode c \<le> 122) \<or>
        (224 \<le> charCode c \<and> charCode c \<le> 254 \<and> charCode c \<noteq> 247) \<or> charCode c = 223)"
proof (cases "(97 \<le> charCode c \<and> charCode c \<le> 122) \<or>
    (224 \<le> charCode c \<and> charCode c \<le> 254 \<and> charCode c \<noteq> 247)")
  case True
  then have "charCode (char_of (charCode c - 32)) = charCode c - 32"
    by (auto simp: charCode_def)
  with True have "charCode (char_of (charCode c - 32)) \<noteq> charCode c" by auto
  then have "char_of (charCode c - 32) \<noteq> c" by (auto simp: charCode_inject)
  with True show ?thesis by (auto simp: toUpperChar_def)
next
  case False
  then show ?thesis by (auto simp: toUpperChar_def)
qed

lemma toLowerChar_fixed:
  "toLowerChar c = c \<longleftrightarrow>
     \<not> ((65 \<le> charCode c \<and> charCode c \<le> 90) \<or>
        (192 \<le> charCode c \<and> charCode c \<le> 222 \<and> charCode c \<noteq> 215))"
proof (cases "(65 \<le> charCode c \<and> charCode c \<le> 90) \<or>
    (192 \<le> charCode c \<and> charCode c \<le> 222 \<and> charCode c \<noteq> 215)")
  case True
  then have "charCode (char_of (charCode c + 32)) = charCode c + 32"
    by (auto simp: charCode_def)
  then have "charCode (char_of (charCode c + 32)) \<noteq> charCode c" by simp
  then have "char_of (charCode c + 32) \<noteq> c" by (auto simp: charCode_inject)
  with True show ?thesis by (auto simp: toLowerChar_def)
next
  case False
  then show ?thesis by (auto simp: toLowerChar_def)
qed

lemma upperCaseLetter_code:
  "([c] = toUpperCase [c] \<and> [c] \<noteq> toLowerCase [c]) \<longleftrightarrow>
     (65 \<le> charCode c \<and> charCode c \<le> 90) \<or>
     (192 \<le> charCode c \<and> charCode c \<le> 222 \<and> charCode c \<noteq> 215)"
proof -
  have "([c] = toUpperCase [c] \<and> [c] \<noteq> toLowerCase [c]) \<longleftrightarrow>
        (toUpperChar c = [c] \<and> toLowerChar c \<noteq> c)"
    by (auto simp: toUpperCase_single toLowerCase_single)
  also have "\<dots> \<longleftrightarrow> (65 \<le> charCode c \<and> charCode c \<le> 90) \<or>
     (192 \<le> charCode c \<and> charCode c \<le> 222 \<and> charCode c \<noteq> 215)"
    unfolding toUpperChar_fixed toLowerChar_fixed by auto
  finally show ?thesis .
qed

section \<open>The variant generator: properties\<close>

text \<open>
  C2. For the search text \<open>bjj video\<close> the code returns eleven pairwise distinct
  strings, in the order of the README, but the ninth (Title Case) is \<open>Bjj Video\<close>: the
  pattern \<open>\b\w\<close> makes the first letter of each word upper case and leaves every
  other letter as it is. The README and the usage text of \<open>main\<close> say \<open>BJJ Video\<close>,
  which is not among the variants that the code searches for.
\<close>

theorem generateVariants_bjj_video:
  "generateVariants ''bjj video'' =
     [''bjj video'', ''BJJ VIDEO'', ''bjj_video'', ''BJJ_VIDEO'', ''bjj-video'', ''BJJ-VIDEO'',
      ''bjjVideo'', ''BjjVideo'', ''Bjj Video'', ''bjjvideo'', ''BJJVIDEO''] \<and>
   generateVariants ''bjj video'' ! 8 = ''Bjj Video'' \<and>
   ''BJJ Video'' \<notin> set (generateVariants ''bjj video'') \<and>
   distinct (generateVariants ''bjj video'') \<and>
   length (generateVariants ''bjj video'') = 11"
  by code_simp

text \<open>
  C6. For every phrase \<open>s\<close> (the empty one too), \<open>generateVariants s\<close> has no
  duplicates and starts with \<open>s\<close> itself, unchanged. It holds the same strings as the
  eleven transformations, in their order, each at the place of its first occurrence:
  it is a subsequence of the eleven, and it is what stays of them when every later
  occurrence of a string is removed.
\<close>

theorem generateVariants_distinct_original_first:
  "distinct (generateVariants s) \<and>
   generateVariants s \<noteq> [] \<and> hd (generateVariants s) = s \<and>
   set (generateVariants s) = set (rawVariants s) \<and>
   subseq (generateVariants s) (rawVariants s) \<and>
   generateVariants s = rev (remdups (rev (rawVariants s)))"
proof -
  obtain rest where "rawVariants s = s # rest" by (simp add: rawVariants_def)
  then obtain rest' where "generateVariants s = s # rest'"
    using newSet_Cons [of s rest] by (auto simp: generateVariants_def)
  then have "generateVariants s \<noteq> [] \<and> hd (generateVariants s) = s" by simp
  moreover have "distinct (generateVariants s)"
    unfolding generateVariants_def by (rule newSet_distinct)
  moreover have "set (generateVariants s) = set (rawVariants s)"
    unfolding generateVariants_def by (rule newSet_set)
  moreover have "subseq (generateVariants s) (rawVariants s)"
    unfolding generateVariants_def by (rule newSet_subseq)
  moreover have "generateVariants s = rev (remdups (rev (rawVariants s)))"
    unfolding generateVariants_def by (rule newSet_first)
  ultimately show ?thesis by blast
qed

section \<open>Case preservation: properties\<close>

text \<open>
  C4. Whatever the two case mappings are, and for strings over any code units:
  \<open>preserveCase m r\<close> is \<open>r\<close> when \<open>m\<close> or \<open>r\<close> is empty. Otherwise, when the first
  character of \<open>m\<close> is an upper case letter (its upper case and lower case forms differ
  and it is its own upper case form), the result is the upper case of the first
  character of \<open>r\<close> followed by the rest of \<open>r\<close>; for any other first character of \<open>m\<close>
  it is the lower case of the first character of \<open>r\<close> followed by the rest of \<open>r\<close>. Only
  the first character of \<open>m\<close> counts, and in every case the result ends with \<open>r\<close>
  without its first character, as it stands in \<open>r\<close>. On the strings of the model,
  \<open>preserveCase\<close> is this function at the case mappings of the model, for which the
  upper case letters are \<open>A\<close> to \<open>Z\<close> and U+00C0 to U+00DE but U+00D7.
\<close>

theorem preserveCase_first_character:
  "preserveCaseWith upperCase lowerCase [] r = r \<and>
   preserveCaseWith upperCase lowerCase m [] = [] \<and>
   (upperCase [c] \<noteq> lowerCase [c] \<and> [c] = upperCase [c] \<longrightarrow>
      preserveCaseWith upperCase lowerCase (c # m') (d # r') = upperCase [d] @ r') \<and>
   (\<not> (upperCase [c] \<noteq> lowerCase [c] \<and> [c] = upperCase [c]) \<longrightarrow>
      preserveCaseWith upperCase lowerCase (c # m') (d # r') = lowerCase [d] @ r') \<and>
   preserveCaseWith upperCase lowerCase (c # m') r = preserveCaseWith upperCase lowerCase [c] r \<and>
   suffix (drop 1 r) (preserveCaseWith upperCase lowerCase m r) \<and>
   preserveCase original replacement =
     preserveCaseWith toUpperCase toLowerCase original replacement \<and>
   ((toUpperCase [a] \<noteq> toLowerCase [a] \<and> [a] = toUpperCase [a]) \<longleftrightarrow>
      (65 \<le> charCode a \<and> charCode a \<le> 90) \<or>
      (192 \<le> charCode a \<and> charCode a \<le> 222 \<and> charCode a \<noteq> 215))"
proof -
  have codes: "(toUpperCase [a] \<noteq> toLowerCase [a] \<and> [a] = toUpperCase [a]) \<longleftrightarrow>
      (65 \<le> charCode a \<and> charCode a \<le> 90) \<or>
      (192 \<le> charCode a \<and> charCode a \<le> 222 \<and> charCode a \<noteq> 215)"
    using upperCaseLetter_code [of a] by auto
  have tail: "suffix (drop 1 r) (preserveCaseWith upperCase lowerCase m r)"
    by (cases m; cases r) (auto simp: preserveCaseWith_def suffix_def)
  have empty: "preserveCaseWith upperCase lowerCase [] r = r \<and>
      preserveCaseWith upperCase lowerCase m [] = []"
    by (cases m) (simp_all add: preserveCaseWith_def)
  have up: "upperCase [c] \<noteq> lowerCase [c] \<and> [c] = upperCase [c] \<Longrightarrow>
      preserveCaseWith upperCase lowerCase (c # m') (d # r') = upperCase [d] @ r'"
    by (auto simp: preserveCaseWith_def)
  have low: "\<not> (upperCase [c] \<noteq> lowerCase [c] \<and> [c] = upperCase [c]) \<Longrightarrow>
      preserveCaseWith upperCase lowerCase (c # m') (d # r') = lowerCase [d] @ r'"
    by (auto simp: preserveCaseWith_def)
  have first: "preserveCaseWith upperCase lowerCase (c # m') r =
      preserveCaseWith upperCase lowerCase [c] r"
    by (simp add: preserveCaseWith_def)
  have inst: "preserveCase original replacement =
      preserveCaseWith toUpperCase toLowerCase original replacement"
    by (simp add: preserveCase_def)
  from codes tail empty up low first inst show ?thesis by blast
qed

theorem preserveCase_first_character_witness:
  "toUpperCase ''F'' \<noteq> toLowerCase ''F'' \<and> ''F'' = toUpperCase ''F'' \<and>
   preserveCase ''Foo'' ''bar'' = ''Bar'' \<and>
   \<not> (toUpperCase ''f'' \<noteq> toLowerCase ''f'' \<and> ''f'' = toUpperCase ''f'') \<and>
   preserveCase ''foo'' ''Bar'' = ''bar'' \<and>
   toUpperCase [CHR 0xC9] \<noteq> toLowerCase [CHR 0xC9] \<and> [CHR 0xC9] = toUpperCase [CHR 0xC9] \<and>
   preserveCase (CHR 0xC9 # ''cole'') ''bar'' = ''Bar''"
proof -
  have u: "toUpperCase ''F'' \<noteq> toLowerCase ''F'' \<and> ''F'' = toUpperCase ''F''" by code_simp
  have l: "\<not> (toUpperCase ''f'' \<noteq> toLowerCase ''f'' \<and> ''f'' = toUpperCase ''f'')" by code_simp
  have e: "toUpperCase [CHR 0xC9] \<noteq> toLowerCase [CHR 0xC9] \<and> [CHR 0xC9] = toUpperCase [CHR 0xC9]"
    by code_simp
  have ub: "toUpperCase ''b'' = ''B''" by code_simp
  have lb: "toLowerCase ''B'' = ''b''" by code_simp
  note F = preserveCase_first_character [where upperCase = toUpperCase and lowerCase = toLowerCase
      and c = "CHR ''F''" and m' = "''oo''" and d = "CHR ''b''" and r' = "''ar''"
      and original = "''Foo''" and replacement = "''bar''"]
  note f = preserveCase_first_character [where upperCase = toUpperCase and lowerCase = toLowerCase
      and c = "CHR ''f''" and m' = "''oo''" and d = "CHR ''B''" and r' = "''ar''"
      and original = "''foo''" and replacement = "''Bar''"]
  note E = preserveCase_first_character [where upperCase = toUpperCase and lowerCase = toLowerCase
      and c = "CHR 0xC9" and m' = "''cole''" and d = "CHR ''b''" and r' = "''ar''"
      and original = "CHR 0xC9 # ''cole''" and replacement = "''bar''"]
  note third = conjunct2 [THEN conjunct2, THEN conjunct1]
  note fourth = conjunct2 [THEN conjunct2, THEN conjunct2, THEN conjunct1]
  note seventh = conjunct2 [THEN conjunct2, THEN conjunct2, THEN conjunct2, THEN conjunct2,
      THEN conjunct2, THEN conjunct1]
  have "preserveCase ''Foo'' ''bar'' = toUpperCase ''b'' @ ''ar''"
    unfolding F [THEN seventh] by (rule F [THEN third, THEN mp, OF u])
  moreover have "preserveCase ''foo'' ''Bar'' = toLowerCase ''B'' @ ''ar''"
    unfolding f [THEN seventh] by (rule f [THEN fourth, THEN mp, OF l])
  moreover have "preserveCase (CHR 0xC9 # ''cole'') ''bar'' = toUpperCase ''b'' @ ''ar''"
    unfolding E [THEN seventh] by (rule E [THEN third, THEN mp, OF e])
  ultimately have "preserveCase ''Foo'' ''bar'' = ''Bar'' \<and> preserveCase ''foo'' ''Bar'' = ''bar'' \<and>
      preserveCase (CHR 0xC9 # ''cole'') ''bar'' = ''Bar''"
    using ub lb by simp
  with u l e show ?thesis by blast
qed

section \<open>Content substitution: properties\<close>

text \<open>
  C1, as the claim states it, fails: the text \<open>FooBar FOO_BAR foo-bar\<close> does not
  become \<open>BazQux BAZ_QUX baz-qux\<close>.
\<close>

theorem content_foo_bar_counterexample:
  "fst (replaceVariants ''FooBar FOO_BAR foo-bar'' (generateVariants ''foo bar'') ''baz qux'')
     \<noteq> ''BazQux BAZ_QUX baz-qux''"
  by code_simp

text \<open>
  C1, amended. With the variants of \<open>foo bar\<close> and the replacement \<open>baz qux\<close>, the text
  \<open>FooBar FOO_BAR foo-bar\<close> becomes \<open>Baz qux Baz qux baz qux\<close>, and the flag is set.
  Each occurrence is replaced by the replacement phrase with only its first character
  adjusted to the case of the first character of the occurrence: \<open>FooBar\<close> and
  \<open>FOO_BAR\<close> give \<open>Baz qux\<close>, and \<open>foo-bar\<close> gives \<open>baz qux\<close>. The replacement is
  not rewritten in the style of the variant.
\<close>

theorem content_foo_bar:
  "replaceVariants ''FooBar FOO_BAR foo-bar'' (generateVariants ''foo bar'') ''baz qux'' =
     (''Baz qux Baz qux baz qux'', True) \<and>
   preserveCase ''FooBar'' ''baz qux'' = ''Baz qux'' \<and>
   preserveCase ''FOO_BAR'' ''baz qux'' = ''Baz qux'' \<and>
   preserveCase ''foo-bar'' ''baz qux'' = ''baz qux''"
  by code_simp

text \<open>
  C3, as the claim states it, fails: searching \<open>foo\<close> in the text \<open>foo\<close> with the
  replacement \<open>Foo\<close> replaces the occurrence by \<open>foo\<close>, so the flag is set and the text
  is the one given.
\<close>

theorem hasChanges_counterexample:
  "\<not> (snd (replaceVariants ''foo'' (generateVariants ''foo'') ''Foo'') \<longleftrightarrow>
       fst (replaceVariants ''foo'' (generateVariants ''foo'') ''Foo'') \<noteq> ''foo'')"
  by code_simp

text \<open>
  C3, amended. The flag returned by the substitution says whether a replacement was
  made: it is set if and only if some variant, at its turn, occurs in the text as the
  variants before it left it. When the text that comes out differs from the text given,
  the flag is set; the flag may be set while the text is the same, when every
  replacement made equals the text it replaced. The flag is what
  \<open>replaceInFileContent\<close> returns when the file is read and written without error.
\<close>

theorem hasChanges_iff_replacement:
  "(snd (replaceVariants content searchVariants replaceWith) \<longleftrightarrow>
      (\<exists>k < length searchVariants.
         sublist (searchVariants ! k)
           (fst (replaceVariants content (take k searchVariants) replaceWith)))) \<and>
   (fst (replaceVariants content searchVariants replaceWith) \<noteq> content \<longrightarrow>
      snd (replaceVariants content searchVariants replaceWith)) \<and>
   (readFileSync P f w = Some content \<and>
    fst (writeFileSync P f (fst (replaceVariants content searchVariants replaceWith)) w) \<longrightarrow>
      fst (replaceInFileContent P f searchVariants replaceWith w) =
        snd (replaceVariants content searchVariants replaceWith))"
proof -
  have returned: "readFileSync P f w = Some content \<and>
    fst (writeFileSync P f (fst (replaceVariants content searchVariants replaceWith)) w) \<longrightarrow>
      fst (replaceInFileContent P f searchVariants replaceWith w) =
        snd (replaceVariants content searchVariants replaceWith)"
    using replaceInFileContent_returns [of P f w content searchVariants replaceWith
        "snd (writeFileSync P f (fst (replaceVariants content searchVariants replaceWith)) w)"]
    by (auto simp: prod_eq_iff split: if_splits)
  with replaceVariants_flag [of content searchVariants replaceWith] show ?thesis by blast
qed

theorem hasChanges_iff_replacement_witness:
  "fst (replaceVariants ''a foo'' [''foo''] ''bar'') \<noteq> ''a foo'' \<and>
   snd (replaceVariants ''a foo'' [''foo''] ''bar'') \<and>
   readFileSync memPlatform ''/r/a.txt'' [(''/r'', DirNode), (''/r/a.txt'', FileNode ''a foo'' True)] =
     Some ''a foo'' \<and>
   fst (writeFileSync memPlatform ''/r/a.txt'' (fst (replaceVariants ''a foo'' [''foo''] ''bar''))
     [(''/r'', DirNode), (''/r/a.txt'', FileNode ''a foo'' True)]) \<and>
   fst (replaceInFileContent memPlatform ''/r/a.txt'' [''foo''] ''bar''
     [(''/r'', DirNode), (''/r/a.txt'', FileNode ''a foo'' True)])"
proof -
  let ?w = "[(''/r'', DirNode), (''/r/a.txt'', FileNode ''a foo'' True)]"
  have h: "fst (replaceVariants ''a foo'' [''foo''] ''bar'') \<noteq> ''a foo''" by code_simp
  have io: "readFileSync memPlatform ''/r/a.txt'' ?w = Some ''a foo'' \<and>
      fst (writeFileSync memPlatform ''/r/a.txt'' (fst (replaceVariants ''a foo'' [''foo''] ''bar''))
        ?w)"
    by code_simp
  from h io
    hasChanges_iff_replacement [of "''a foo''" "[''foo'']" "''bar''" memPlatform "''/r/a.txt''" ?w]
  show ?thesis by blast
qed

text \<open>
  C5. The text that the loop of the content substitution computes is the explicit left
  fold over the variant list: step \<open>k\<close> is the global, left to right, literal
  replacement of variant \<open>k\<close>, occurrences not overlapping and the text put in not
  scanned again in that pass, on the output of step \<open>k - 1\<close>.
\<close>

theorem replaceVariants_is_fold:
  "fst (replaceVariants text searchVariants replaceWith) =
     specContentSubstitution text searchVariants replaceWith"
  unfolding replaceVariants_def specContentSubstitution_def
  using foldl_replaceVariant_fst [of replaceWith "(text, False)" searchVariants] by simp

section \<open>The command line: properties\<close>

lemma trim_empty_iff: "trim s = [] \<longleftrightarrow> (\<forall>c\<in>set s. isWhiteSpace c)"
proof
  assume "trim s = []"
  then have "dropWhile isWhiteSpace (rev (dropWhile isWhiteSpace s)) = []"
    by (simp add: trim_def)
  then have all: "\<forall>c\<in>set (dropWhile isWhiteSpace s). isWhiteSpace c"
    using dropWhile_eq_Nil_conv [of isWhiteSpace "rev (dropWhile isWhiteSpace s)"] by simp
  have "dropWhile isWhiteSpace s = []"
  proof (rule ccontr)
    assume ne: "dropWhile isWhiteSpace s \<noteq> []"
    then have "\<not> isWhiteSpace (hd (dropWhile isWhiteSpace s))" by (rule hd_dropWhile)
    moreover have "hd (dropWhile isWhiteSpace s) \<in> set (dropWhile isWhiteSpace s)"
      using ne by simp
    ultimately show False using all by blast
  qed
  then show "\<forall>c\<in>set s. isWhiteSpace c"
    using dropWhile_eq_Nil_conv [of isWhiteSpace s] by blast
next
  assume "\<forall>c\<in>set s. isWhiteSpace c"
  then have "dropWhile isWhiteSpace s = []"
    using dropWhile_eq_Nil_conv [of isWhiteSpace s] by blast
  then show "trim s = []" unfolding trim_def by (simp only: rev.simps dropWhile.simps)
qed

text \<open>
  C8. When three arguments are given and the replacement text is empty or holds white
  space only, \<open>main\<close> prints the error and ends the process with status 1. The file
  system is the one it found, and the error message is the only event of the run:
  nothing is read, written, renamed, listed or looked at before the exit.
\<close>

theorem main_rejects_blank_replacement:
  assumes "3 \<le> length args" and "\<forall>c\<in>set (args ! 2). isWhiteSpace c"
  shows "main P fuel args w = (ProcessExit 1, w, [ConsoleError ReplacementEmpty])"
proof -
  have "trim (args ! 2) = []" using assms(2) by (simp add: trim_empty_iff)
  moreover have "\<not> length args < 3" using assms(1) by simp
  ultimately show ?thesis by (simp add: main_def Let_def)
qed

theorem main_rejects_blank_replacement_witness:
  "main memPlatform 5 [''/r'', ''src'', ''  '']
     [(''/r'', DirNode), (''/r/src.txt'', FileNode ''src'' True)] =
     (ProcessExit 1, [(''/r'', DirNode), (''/r/src.txt'', FileNode ''src'' True)],
      [ConsoleError ReplacementEmpty]) \<and>
   main memPlatform 5 [''/r'', ''src'', [CHR 0xA0, CHR 0x09]]
     [(''/r'', DirNode), (''/r/src.txt'', FileNode ''src'' True)] =
     (ProcessExit 1, [(''/r'', DirNode), (''/r/src.txt'', FileNode ''src'' True)],
      [ConsoleError ReplacementEmpty]) \<and>
   main memPlatform 5 [''/r'', ''src'', []]
     [(''/r'', DirNode), (''/r/src.txt'', FileNode ''src'' True)] =
     (ProcessExit 1, [(''/r'', DirNode), (''/r/src.txt'', FileNode ''src'' True)],
      [ConsoleError ReplacementEmpty])"
proof -
  have len: "3 \<le> length [''/r'', ''src'', ''  '']" "3 \<le> length [''/r'', ''src'', [CHR 0xA0, CHR 0x09]]"
    "3 \<le> length [''/r'', ''src'', []]"
    by simp_all
  have blank: "\<forall>c\<in>set ([''/r'', ''src'', ''  ''] ! 2). isWhiteSpace c" by code_simp
  have nbsp: "\<forall>c\<in>set ([''/r'', ''src'', [CHR 0xA0, CHR 0x09]] ! 2). isWhiteSpace c" by code_simp
  have none: "\<forall>c\<in>set ([''/r'', ''src'', []] ! 2). isWhiteSpace c" by simp
  show ?thesis
    by (intro conjI)
      (rule main_rejects_blank_replacement [OF len(1) blank]
         main_rejects_blank_replacement [OF len(2) nbsp]
         main_rejects_blank_replacement [OF len(3) none])+
qed

lemma execAll_empty:
  "i \<le> Suc (length s) \<Longrightarrow> execAll [] s i = [i..<Suc (length s)]"
proof (induction "Suc (length s) - i" arbitrary: i)
  case 0
  then have "length s < i" by simp
  then show ?case by (simp add: execAll_past)
next
  case (Suc k)
  then have le: "i \<le> length s" by simp
  have "execAll [] s i = i # execAll [] s (Suc i)"
    using execAll_match [OF le, of "[]"] by (simp add: matchesAt_empty le)
  moreover have "execAll [] s (Suc i) = [Suc i..<Suc (length s)]"
    using Suc le by (intro Suc.hyps) auto
  ultimately show ?case using le by (simp add: upt_conv_Cons)
qed

lemma specReplaceAll_empty:
  "specReplaceAll [] r s = r @ concat (map (\<lambda>c. c # r) s)"
  by (induction s) (simp_all add: specReplaceAll.simps)

lemma generateVariants_empty: "generateVariants [] = [[]]"
  by code_simp

text \<open>
  C10. The variants of the empty search text are the empty string alone. \<open>main\<close> does
  not look at the search text: with a replacement that is not blank and a root path
  that is a directory, it goes on to \<open>processDirectory\<close> with that one variant. The
  pattern of the empty variant matches at every position of a text, from 0 to its
  length, each match being empty, so the replacement goes before every character and
  at the end, and the flag is set.
\<close>

theorem empty_search_text:
  "generateVariants [] = [[]] \<and>
   (trim r \<noteq> [] \<and> existsSync P (pathResolve P root) w \<and>
    statSync P (pathResolve P root) w = Some IsDirectory \<longrightarrow>
      main P fuel [root, [], r] w =
        (case processDirectory P fuel (pathResolve P root) [[]] r w of
           (finished, w', events) \<Rightarrow>
             (if finished then Completed else OutOfFuel, w',
              [Exists (pathResolve P root) True, Stat (pathResolve P root) (Some IsDirectory)]
                @ events))) \<and>
   execAll (regExpLiteral (escapeRegExp [])) text 0 = [0..<Suc (length text)] \<and>
   stringMatch (regExpLiteral (escapeRegExp [])) text = Some (replicate (Suc (length text)) []) \<and>
   replaceVariants text [[]] r = (r @ concat (map (\<lambda>c. c # r) text), True)"
proof -
  have ex: "execAll [] text 0 = [0..<Suc (length text)]" by (simp add: execAll_empty)
  have results: "execAll (regExpLiteral (escapeRegExp [])) text 0 = [0..<Suc (length text)]"
    using ex by (simp add: regExpLiteral_escapeRegExp)
  have "map (\<lambda>i. substring text i (i + length ([]::string))) [0..<Suc (length text)] =
          replicate (Suc (length text)) []"
    by (simp add: substring_def map_replicate_const del: upt_Suc)
  moreover have "[0..<Suc (length text)] = 0 # [1..<Suc (length text)]"
    by (simp add: upt_conv_Cons del: upt_Suc)
  ultimately have matches:
    "stringMatch (regExpLiteral (escapeRegExp [])) text = Some (replicate (Suc (length text)) [])"
    using ex by (simp add: stringMatch_def regExpLiteral_escapeRegExp del: upt_Suc replicate_Suc)
  have "fst (replaceVariants text [[]] r) = r @ concat (map (\<lambda>c. c # r) text)"
    by (simp add: replaceVariants_def replaceVariant_fst specReplaceAll_empty preserveCase_def
        preserveCaseWith_def)
  moreover have "snd (replaceVariants text [[]] r)"
    using ex by (simp add: replaceVariants_def replaceVariant_snd del: upt_Suc)
  ultimately have subst: "replaceVariants text [[]] r = (r @ concat (map (\<lambda>c. c # r) text), True)"
    by (simp add: prod_eq_iff)
  have run: "trim r \<noteq> [] \<and> existsSync P (pathResolve P root) w \<and>
    statSync P (pathResolve P root) w = Some IsDirectory \<longrightarrow>
      main P fuel [root, [], r] w =
        (case processDirectory P fuel (pathResolve P root) [[]] r w of
           (finished, w', events) \<Rightarrow>
             (if finished then Completed else OutOfFuel, w',
              [Exists (pathResolve P root) True, Stat (pathResolve P root) (Some IsDirectory)]
                @ events))"
    by (simp add: main_def Let_def generateVariants_empty)
  from generateVariants_empty run results matches subst show ?thesis by blast
qed

theorem empty_search_text_witness:
  "trim ''x'' \<noteq> [] \<and>
   existsSync memPlatform (pathResolve memPlatform ''/r'')
     [(''/r'', DirNode), (''/r/ab'', FileNode ''cd'' True)] \<and>
   statSync memPlatform (pathResolve memPlatform ''/r'')
     [(''/r'', DirNode), (''/r/ab'', FileNode ''cd'' True)] = Some IsDirectory \<and>
   main memPlatform 5 [''/r'', [], ''x''] [(''/r'', DirNode), (''/r/ab'', FileNode ''cd'' True)] =
     (Completed, [(''/r'', DirNode), (''/r/xaxbx'', FileNode ''xcxdx'' True)],
      [Exists ''/r'' True, Stat ''/r'' (Some IsDirectory), ReadDir ''/r'' (Some [''ab'']),
       Stat ''/r/ab'' (Some IsFile), ReadFile ''/r/ab'' (Some ''cd''),
       WriteFile ''/r/ab'' ''xcxdx'' True, Rename ''/r/ab'' ''/r/xaxbx'' True])"
proof -
  let ?w = "[(''/r'', DirNode), (''/r/ab'', FileNode ''cd'' True)]"
  have valid: "trim ''x'' \<noteq> [] \<and> existsSync memPlatform (pathResolve memPlatform ''/r'') ?w \<and>
      statSync memPlatform (pathResolve memPlatform ''/r'') ?w = Some IsDirectory"
    by code_simp
  have root: "pathResolve memPlatform ''/r'' = ''/r''" by code_simp
  have run: "processDirectory memPlatform 5 ''/r'' [[]] ''x'' ?w =
      (True, [(''/r'', DirNode), (''/r/xaxbx'', FileNode ''xcxdx'' True)],
       [ReadDir ''/r'' (Some [''ab'']), Stat ''/r/ab'' (Some IsFile),
        ReadFile ''/r/ab'' (Some ''cd''), WriteFile ''/r/ab'' ''xcxdx'' True,
        Rename ''/r/ab'' ''/r/xaxbx'' True])"
    by code_simp
  from valid empty_search_text [of "''x''" memPlatform "''/r''" ?w 5]
  have "main memPlatform 5 [''/r'', [], ''x''] ?w =
      (case processDirectory memPlatform 5 (pathResolve memPlatform ''/r'') [[]] ''x'' ?w of
         (finished, w', events) \<Rightarrow>
           (if finished then Completed else OutOfFuel, w',
            [Exists (pathResolve memPlatform ''/r'') True,
             Stat (pathResolve memPlatform ''/r'') (Some IsDirectory)] @ events))"
    by blast
  then have "main memPlatform 5 [''/r'', [], ''x''] ?w =
     (Completed, [(''/r'', DirNode), (''/r/xaxbx'', FileNode ''xcxdx'' True)],
      [Exists ''/r'' True, Stat ''/r'' (Some IsDirectory), ReadDir ''/r'' (Some [''ab'']),
       Stat ''/r/ab'' (Some IsFile), ReadFile ''/r/ab'' (Some ''cd''),
       WriteFile ''/r/ab'' ''xcxdx'' True, Rename ''/r/ab'' ''/r/xaxbx'' True])"
    by (simp only: root run) simp
  with valid show ?thesis by blast
qed

section \<open>The traversal: properties\<close>

lemma collectItems_events:
  "Rename a b c \<notin> set (snd (collectItems P d items w)) \<and>
   ReadDir q res \<notin> set (snd (collectItems P d items w))"
  by (induction items) (auto simp: Let_def split: option.splits prod.splits)

lemma collectItems_result:
  "collectItems P d items w = (Some (directories, files), events) \<Longrightarrow>
     (\<forall>p\<in>set directories. \<exists>item\<in>set items. p = pathJoin P d item \<and> \<not> shouldIgnoreFolder item) \<and>
     (\<forall>f\<in>set files. Stat f (Some IsFile) \<in> set events)"
proof (induction items arbitrary: directories files events)
  case Nil
  then show ?case by simp
next
  case (Cons item items)
  from Cons.prems obtain st where st: "statSync P (pathJoin P d item) w = Some st"
    by (cases "statSync P (pathJoin P d item) w") (auto simp: Let_def)
  from Cons.prems st obtain ds fs es where
    rest: "collectItems P d items w = (Some (ds, fs), es)"
    by (cases "collectItems P d items w") (auto simp: Let_def split: option.splits prod.splits)
  note ih = Cons.IH [OF rest]
  have ev: "events = Stat (pathJoin P d item) (Some st) # es"
    using Cons.prems st rest by (simp add: Let_def)
  have res: "(directories, files) =
      (if st = IsDirectory
       then (if \<not> shouldIgnoreFolder item then (pathJoin P d item # ds, fs) else (ds, fs))
       else if st = IsFile then (ds, pathJoin P d item # fs) else (ds, fs))"
    using Cons.prems st rest by (simp add: Let_def)
  show ?case
  proof (intro conjI ballI)
    fix p assume "p \<in> set directories"
    then have "p \<in> set ds \<or> (p = pathJoin P d item \<and> \<not> shouldIgnoreFolder item)"
      using res by (auto split: if_splits)
    then show "\<exists>i\<in>set (item # items). p = pathJoin P d i \<and> \<not> shouldIgnoreFolder i"
      using ih by auto
  next
    fix f assume "f \<in> set files"
    then have "f \<in> set fs \<or> (f = pathJoin P d item \<and> st = IsFile)"
      using res by (auto split: if_splits)
    then show "Stat f (Some IsFile) \<in> set events"
      using ih ev by auto
  qed
qed

lemma replaceInFileContent_events:
  "Rename a b c \<notin> set (snd (snd (replaceInFileContent P f vs r w))) \<and>
   ReadDir q res \<notin> set (snd (snd (replaceInFileContent P f vs r w)))"
  by (auto simp: replaceInFileContent_def split: option.splits prod.splits bool.splits)

lemma renameIfMatches_no_ReadDir:
  "ReadDir q res \<notin> set (snd (snd (renameIfMatches P f vs r w)))"
  by (auto simp: renameIfMatches_def Let_def split: option.splits prod.splits bool.splits)

lemma renameIfMatches_source:
  "Rename a b c \<in> set (snd (snd (renameIfMatches P f vs r w))) \<Longrightarrow> a = f"
  by (auto simp: renameIfMatches_def Let_def split: option.splits prod.splits bool.splits if_splits)

lemma renameIfMatches_renamed:
  "fst (renameIfMatches P f vs r w) = Some np \<Longrightarrow>
   Rename f np True \<in> set (snd (snd (renameIfMatches P f vs r w)))"
  by (auto simp: renameIfMatches_def Let_def split: option.splits prod.splits bool.splits if_splits)

lemma processFiles_no_ReadDir:
  "ReadDir q res \<notin> set (snd (processFiles P files vs r w))"
proof (induction files arbitrary: w)
  case Nil
  show ?case by simp
next
  case (Cons f files)
  show ?case
    using replaceInFileContent_events [of _ _ _ P f vs r w q res]
      renameIfMatches_no_ReadDir [of q res P f vs r] Cons
    by (auto split: prod.splits) (metis snd_conv)+
qed

lemma processFiles_sources:
  "Rename a b c \<in> set (snd (processFiles P files vs r w)) \<Longrightarrow> a \<in> set files"
proof (induction files arbitrary: w)
  case Nil
  then show ?case by simp
next
  case (Cons f files)
  obtain ch w1 e1 where c: "replaceInFileContent P f vs r w = (ch, w1, e1)"
    by (cases "replaceInFileContent P f vs r w") auto
  obtain np w2 e2 where n: "renameIfMatches P f vs r w1 = (np, w2, e2)"
    by (cases "renameIfMatches P f vs r w1") auto
  obtain w3 e3 where p: "processFiles P files vs r w2 = (w3, e3)"
    by (cases "processFiles P files vs r w2") auto
  from Cons.prems c n p have "Rename a b c \<in> set e1 \<or> Rename a b c \<in> set e2 \<or> Rename a b c \<in> set e3"
    by auto
  moreover have "Rename a b c \<notin> set e1"
    using replaceInFileContent_events [of a b c P f vs r w] c by simp
  moreover have "Rename a b c \<in> set e2 \<Longrightarrow> a = f"
    using renameIfMatches_source [of a b c P f vs r w1] n by simp
  moreover have "Rename a b c \<in> set e3 \<Longrightarrow> a \<in> set files"
    using Cons.IH [of w2] p by simp
  ultimately show ?case by auto
qed

lemma entersOnly_append:
  "entersOnly P R a \<Longrightarrow> entersOnly P R b \<Longrightarrow> entersOnly P R (a @ b)"
  unfolding entersOnly_def by (auto; blast)

lemma renamesOnly_append:
  "renamesOnly P a \<Longrightarrow> renamesOnly P b \<Longrightarrow> renamesOnly P (a @ b)"
  unfolding renamesOnly_def by (auto; blast)

lemma entersOnly_no_ReadDir:
  "(\<And>q res. ReadDir q res \<notin> set a) \<Longrightarrow> entersOnly P R a"
  unfolding entersOnly_def by blast

lemma entersOnly_weaken: "entersOnly P R a \<Longrightarrow> R \<subseteq> R' \<Longrightarrow> entersOnly P R' a"
  unfolding entersOnly_def by blast

lemma processDirectories_ok:
  assumes rec: "\<And>p w. entersOnly P {p} (snd (snd (recurse p w))) \<and>
                       renamesOnly P (snd (snd (recurse p w)))"
    and dirs: "\<forall>d\<in>set dirs. \<not> shouldIgnoreFolder (pathBasename P d)"
  shows "entersOnly P {} (snd (snd (processDirectories recurse P dirs vs r w))) \<and>
         renamesOnly P (snd (snd (processDirectories recurse P dirs vs r w)))"
  using dirs
proof (induction dirs arbitrary: w)
  case Nil
  show ?case by (simp add: entersOnly_def renamesOnly_def)
next
  case (Cons d ds)
  obtain np w1 e1 where n: "renameIfMatches P d vs r w = (np, w1, e1)"
    by (cases "renameIfMatches P d vs r w") auto
  define ptp where "ptp = (case np of Some newPath \<Rightarrow> if newPath = [] then d else newPath | None \<Rightarrow> d)"
  obtain fin w2 e2 where rc: "recurse ptp w1 = (fin, w2, e2)"
    by (cases "recurse ptp w1") auto
  obtain fin' w3 e3 where rest: "processDirectories recurse P ds vs r w2 = (fin', w3, e3)"
    by (cases "processDirectories recurse P ds vs r w2") auto
  have dok: "\<not> shouldIgnoreFolder (pathBasename P d)" using Cons.prems by simp
  have e1_no: "\<And>q res. ReadDir q res \<notin> set e1"
    using renameIfMatches_no_ReadDir [of _ _ P d vs r w] n by simp
  have e1_src: "\<And>a b c. Rename a b c \<in> set e1 \<Longrightarrow> a = d"
    using renameIfMatches_source [of _ _ _ P d vs r w] n by simp
  have ptp_ok: "ptp = d \<or> Rename d ptp True \<in> set e1"
    using renameIfMatches_renamed [of P d vs r w] n by (auto simp: ptp_def split: option.splits)
  have e2_ok: "entersOnly P {ptp} e2" "renamesOnly P e2" using rec [of ptp w1] rc by simp_all
  have e3_ok: "entersOnly P {} e3" "renamesOnly P e3"
    using Cons.IH [of w2] Cons.prems rest by simp_all
  have e12_enter: "entersOnly P {} (e1 @ e2)"
    unfolding entersOnly_def
  proof (intro allI impI)
    fix q res assume "ReadDir q res \<in> set (e1 @ e2)"
    then have in2: "ReadDir q res \<in> set e2" using e1_no by auto
    then have "q = ptp \<or> \<not> shouldIgnoreFolder (pathBasename P q) \<or>
        (\<exists>src. Rename src q True \<in> set e2 \<and> \<not> shouldIgnoreFolder (pathBasename P src))"
      using e2_ok(1) unfolding entersOnly_def by blast
    then show "q \<in> {} \<or> \<not> shouldIgnoreFolder (pathBasename P q) \<or>
        (\<exists>src. Rename src q True \<in> set (e1 @ e2) \<and> \<not> shouldIgnoreFolder (pathBasename P src))"
      using ptp_ok dok by auto
  qed
  have e1_ren: "renamesOnly P e1"
    unfolding renamesOnly_def using e1_src dok by blast
  have e12_ren: "renamesOnly P (e1 @ e2)"
    using e1_ren e2_ok(2) by (rule renamesOnly_append)
  have ev: "snd (snd (processDirectories recurse P (d # ds) vs r w)) =
      (if \<not> fin then e1 @ e2 else (e1 @ e2) @ e3)"
    using n rc rest by (simp add: ptp_def [symmetric])
  show ?case
  proof (cases fin)
    case False
    then show ?thesis using ev e12_enter e12_ren by simp
  next
    case True
    then show ?thesis
      using ev entersOnly_append [OF e12_enter e3_ok(1)] renamesOnly_append [OF e12_ren e3_ok(2)]
      by simp
  qed
qed

lemma processDirectory_ok:
  assumes H: "\<forall>d w items. readdirSync P d w = Some items \<longrightarrow>
                (\<forall>item\<in>set items. pathBasename P (pathJoin P d item) = item)"
  shows "entersOnly P {root} (snd (snd (processDirectory P fuel root vs r w))) \<and>
         renamesOnly P (snd (snd (processDirectory P fuel root vs r w)))"
proof (induction fuel arbitrary: root w)
  case 0
  show ?case by (simp add: entersOnly_def renamesOnly_def)
next
  case (Suc fuel)
  show ?case
  proof (cases "readdirSync P root w")
    case None
    then show ?thesis by (simp add: entersOnly_def renamesOnly_def)
  next
    case (Some items)
    obtain res se where col: "collectItems P root items w = (res, se)"
      by (cases "collectItems P root items w") auto
    have se_no: "\<And>q x. ReadDir q x \<notin> set se" "\<And>a b c. Rename a b c \<notin> set se"
      using collectItems_events [of _ _ _ P root items w] col by simp_all
    show ?thesis
    proof (cases res)
      case None
      then have ev: "snd (snd (processDirectory P (Suc fuel) root vs r w)) =
          ReadDir root (Some items) # se @ [ConsoleError (DirectoryError root)]"
        using Some col by simp
      show ?thesis unfolding ev using se_no
        by (auto simp: entersOnly_def renamesOnly_def)
    next
      case (Some df)
      obtain dirs files where df: "df = (dirs, files)" by (cases df) auto
      note cr = collectItems_result [OF col [unfolded Some df]]
      obtain w1 fe where pf: "processFiles P files vs r w = (w1, fe)"
        by (cases "processFiles P files vs r w") auto
      obtain fin w2 de where pd:
        "processDirectories (\<lambda>p w'. processDirectory P fuel p vs r w') P dirs vs r w1 = (fin, w2, de)"
        by (cases "processDirectories (\<lambda>p w'. processDirectory P fuel p vs r w') P dirs vs r w1") auto
      have ev: "snd (snd (processDirectory P (Suc fuel) root vs r w)) =
          ReadDir root (Some items) # se @ fe @ de"
        using \<open>readdirSync P root w = Some items\<close> col Some df pf pd by simp
      have dirs_ok: "\<forall>d\<in>set dirs. \<not> shouldIgnoreFolder (pathBasename P d)"
      proof
        fix d assume "d \<in> set dirs"
        then obtain item where it: "item \<in> set items" "d = pathJoin P root item"
          "\<not> shouldIgnoreFolder item" using cr by blast
        then have "pathBasename P d = item" using H \<open>readdirSync P root w = Some items\<close> by blast
        then show "\<not> shouldIgnoreFolder (pathBasename P d)" using it by simp
      qed
      have de_ok: "entersOnly P {} de" "renamesOnly P de"
        using processDirectories_ok [of P "\<lambda>p w'. processDirectory P fuel p vs r w'" dirs vs r w1,
            OF Suc.IH dirs_ok] pd by simp_all
      have fe_no: "\<And>q x. ReadDir q x \<notin> set fe"
        using processFiles_no_ReadDir [of _ _ P files vs r w] pf by simp
      have fe_src: "\<And>a b c. Rename a b c \<in> set fe \<Longrightarrow> Stat a (Some IsFile) \<in> set se"
        using processFiles_sources [of _ _ _ P files vs r w] pf cr by auto
      have enter: "entersOnly P {root} (ReadDir root (Some items) # se @ fe @ de)"
        unfolding entersOnly_def
      proof (intro allI impI)
        fix q x assume "ReadDir q x \<in> set (ReadDir root (Some items) # se @ fe @ de)"
        then have "q = root \<or> ReadDir q x \<in> set de" using se_no fe_no by auto
        then show "q \<in> {root} \<or> \<not> shouldIgnoreFolder (pathBasename P q) \<or>
            (\<exists>src. Rename src q True \<in> set (ReadDir root (Some items) # se @ fe @ de) \<and>
                   \<not> shouldIgnoreFolder (pathBasename P src))"
          using de_ok(1) unfolding entersOnly_def by auto
      qed
      have ren: "renamesOnly P (ReadDir root (Some items) # se @ fe @ de)"
        unfolding renamesOnly_def
      proof (intro allI impI)
        fix a b c assume "Rename a b c \<in> set (ReadDir root (Some items) # se @ fe @ de)"
        then have "Rename a b c \<in> set fe \<or> Rename a b c \<in> set de" using se_no by auto
        then show "\<not> shouldIgnoreFolder (pathBasename P a) \<or>
            Stat a (Some IsFile) \<in> set (ReadDir root (Some items) # se @ fe @ de)"
        proof
          assume "Rename a b c \<in> set fe"
          then have "Stat a (Some IsFile) \<in> set se" by (rule fe_src)
          then show ?thesis by simp
        next
          assume "Rename a b c \<in> set de"
          then have "\<not> shouldIgnoreFolder (pathBasename P a) \<or> Stat a (Some IsFile) \<in> set de"
            using de_ok(2) unfolding renamesOnly_def by blast
          then show ?thesis by auto
        qed
      qed
      show ?thesis unfolding ev using enter ren by simp
    qed
  qed
qed


lemma memBasename_no_slash: "CHR ''/'' \<notin> set (memBasename q)"
  unfolding memBasename_def by (auto dest: set_takeWhileD)

lemma memBasename_memJoin:
  assumes "CHR ''/'' \<notin> set name"
  shows "memBasename (memJoin d name) = name"
proof -
  have "\<And>x. x \<in> set (rev name) \<Longrightarrow> x \<noteq> CHR ''/''" using assms by auto
  then have "takeWhile (\<lambda>c. c \<noteq> CHR ''/'') (rev name @ CHR ''/'' # rev d) =
      rev name @ takeWhile (\<lambda>c. c \<noteq> CHR ''/'') (CHR ''/'' # rev d)"
    by (rule takeWhile_append2)
  then have "takeWhile (\<lambda>c. c \<noteq> CHR ''/'') (rev name @ CHR ''/'' # rev d) = rev name"
    by simp
  then show ?thesis by (simp add: memBasename_def memJoin_def)
qed

lemma memPlatform_listing:
  assumes "readdirSync memPlatform d w = Some items" and "item \<in> set items"
  shows "pathBasename memPlatform (pathJoin memPlatform d item) = item"
proof -
  from assms(1) have "items = map (\<lambda>(q, n). memBasename q) (filter (\<lambda>(q, n). memDirname q = d) w)"
    by (auto simp: memPlatform_def memReaddir_def split: option.splits node.splits)
  with assms(2) obtain q where "item = memBasename q" by auto
  then have "memBasename (memJoin d item) = item"
    using memBasename_memJoin [OF memBasename_no_slash] by simp
  then show ?thesis by (simp add: memPlatform_def)
qed

text \<open>
  C7, as the claim states it, fails: the names are checked when a directory is listed,
  not when it is entered. With the search text \<open>src\<close> and the replacement \<open>dist\<close>, the
  directory \<open>/r/src\<close> is renamed to \<open>/r/dist\<close> and then listed under that name.
\<close>

theorem ignored_name_entered_counterexample:
  "shouldIgnoreFolder (pathBasename memPlatform ''/r/dist'') \<and>
   ReadDir ''/r/dist'' (Some [''a.txt'']) \<in>
     set (snd (snd (main memPlatform 5 [''/r'', ''src'', ''dist'']
       [(''/r'', DirNode), (''/r/src'', DirNode), (''/r/src/a.txt'', FileNode ''hello'' True)])))"
  by code_simp

text \<open>
  C7, amended. On a platform where the base name of \<open>join(dirPath, item)\<close> is \<open>item\<close>
  for every item that \<open>readdirSync\<close> lists, a directory listed under one of the names
  \<open>.git\<close>, \<open>bin\<close>, \<open>obj\<close>, \<open>node_modules\<close>, \<open>dist\<close> is never selected, whether or not
  its name holds a search variant: it is not among the directories that the traversal
  renames and recurses into. In every run, with whatever fuel: a directory that is
  entered is the root of the traversal, or has a base name that is not ignored, or is
  the new path of a successful rename of an item whose base name is not ignored; and
  an item that \<open>renameSync\<close> is called on has a base name that is not ignored, or was
  reported as a file by \<open>statSync\<close>.
\<close>

theorem ignored_folders_not_selected:
  assumes "\<forall>d w items. readdirSync P d w = Some items \<longrightarrow>
             (\<forall>item\<in>set items. pathBasename P (pathJoin P d item) = item)"
  shows
    "(readdirSync P d w = Some items \<and>
      collectItems P d items w = (Some (directories, files), statEvents) \<longrightarrow>
        (\<forall>item\<in>set items. shouldIgnoreFolder item \<longrightarrow> pathJoin P d item \<notin> set directories) \<and>
        (\<forall>p\<in>set directories. \<not> shouldIgnoreFolder (pathBasename P p))) \<and>
     (\<forall>q res. ReadDir q res \<in> set (snd (snd (processDirectory P fuel root vs r w))) \<longrightarrow>
        q = root \<or> \<not> shouldIgnoreFolder (pathBasename P q) \<or>
        (\<exists>src. Rename src q True \<in> set (snd (snd (processDirectory P fuel root vs r w))) \<and>
               \<not> shouldIgnoreFolder (pathBasename P src))) \<and>
     (\<forall>src dst ok. Rename src dst ok \<in> set (snd (snd (processDirectory P fuel root vs r w))) \<longrightarrow>
        \<not> shouldIgnoreFolder (pathBasename P src) \<or>
        Stat src (Some IsFile) \<in> set (snd (snd (processDirectory P fuel root vs r w))))"
proof -
  have listing: "readdirSync P d w = Some items \<and>
      collectItems P d items w = (Some (directories, files), statEvents) \<longrightarrow>
        (\<forall>item\<in>set items. shouldIgnoreFolder item \<longrightarrow> pathJoin P d item \<notin> set directories) \<and>
        (\<forall>p\<in>set directories. \<not> shouldIgnoreFolder (pathBasename P p))"
  proof (intro impI)
    assume a: "readdirSync P d w = Some items \<and>
      collectItems P d items w = (Some (directories, files), statEvents)"
    then have base: "\<And>item. item \<in> set items \<Longrightarrow> pathBasename P (pathJoin P d item) = item"
      using assms by blast
    have sel: "\<forall>p\<in>set directories. \<exists>item\<in>set items. p = pathJoin P d item \<and> \<not> shouldIgnoreFolder item"
      using collectItems_result [OF conjunct2 [OF a]] by blast
    have second: "\<forall>p\<in>set directories. \<not> shouldIgnoreFolder (pathBasename P p)"
    proof
      fix p assume "p \<in> set directories"
      then obtain item where "item \<in> set items" "p = pathJoin P d item" "\<not> shouldIgnoreFolder item"
        using sel by blast
      then show "\<not> shouldIgnoreFolder (pathBasename P p)" using base by simp
    qed
    have first: "\<forall>item\<in>set items. shouldIgnoreFolder item \<longrightarrow> pathJoin P d item \<notin> set directories"
    proof (intro ballI impI)
      fix item assume "item \<in> set items" "shouldIgnoreFolder item"
      then have "shouldIgnoreFolder (pathBasename P (pathJoin P d item))" using base by simp
      then show "pathJoin P d item \<notin> set directories" using second by blast
    qed
    from first second show "(\<forall>item\<in>set items. shouldIgnoreFolder item \<longrightarrow> pathJoin P d item \<notin> set directories) \<and>
        (\<forall>p\<in>set directories. \<not> shouldIgnoreFolder (pathBasename P p))" by blast
  qed
  have "entersOnly P {root} (snd (snd (processDirectory P fuel root vs r w))) \<and>
        renamesOnly P (snd (snd (processDirectory P fuel root vs r w)))"
    using assms by (rule processDirectory_ok)
  then show ?thesis using listing unfolding entersOnly_def renamesOnly_def by simp
qed

theorem ignored_folders_not_selected_witness:
  "(\<forall>res. ReadDir ''/r/dist'' res \<notin>
      set (snd (snd (processDirectory memPlatform 5 ''/r'' (generateVariants ''src'') ''lib''
        [(''/r'', DirNode), (''/r/src'', DirNode),
         (''/r/src/a.txt'', FileNode ''use src here'' True),
         (''/r/dist'', DirNode), (''/r/dist/src.txt'', FileNode ''src'' True)])))) \<and>
   (\<forall>dst ok. Rename ''/r/dist'' dst ok \<notin>
      set (snd (snd (processDirectory memPlatform 5 ''/r'' (generateVariants ''src'') ''lib''
        [(''/r'', DirNode), (''/r/src'', DirNode),
         (''/r/src/a.txt'', FileNode ''use src here'' True),
         (''/r/dist'', DirNode), (''/r/dist/src.txt'', FileNode ''src'' True)])))) \<and>
   readdirSync memPlatform ''/r''
     [(''/r'', DirNode), (''/r/src'', DirNode),
      (''/r/src/a.txt'', FileNode ''use src here'' True),
      (''/r/dist'', DirNode), (''/r/dist/src.txt'', FileNode ''src'' True)] =
     Some [''src'', ''dist''] \<and>
   collectItems memPlatform ''/r'' [''src'', ''dist'']
     [(''/r'', DirNode), (''/r/src'', DirNode),
      (''/r/src/a.txt'', FileNode ''use src here'' True),
      (''/r/dist'', DirNode), (''/r/dist/src.txt'', FileNode ''src'' True)] =
     (Some ([''/r/src''], []),
      [Stat ''/r/src'' (Some IsDirectory), Stat ''/r/dist'' (Some IsDirectory)]) \<and>
   shouldIgnoreFolder ''dist'' \<and>
   pathJoin memPlatform ''/r'' ''dist'' \<notin> set [''/r/src'']"
proof -
  let ?w = "[(''/r'', DirNode), (''/r/src'', DirNode),
         (''/r/src/a.txt'', FileNode ''use src here'' True),
         (''/r/dist'', DirNode), (''/r/dist/src.txt'', FileNode ''src'' True)]"
  let ?ev = "snd (snd (processDirectory memPlatform 5 ''/r'' (generateVariants ''src'') ''lib'' ?w))"
  have H: "\<forall>d w items. readdirSync memPlatform d w = Some items \<longrightarrow>
             (\<forall>item\<in>set items. pathBasename memPlatform (pathJoin memPlatform d item) = item)"
    using memPlatform_listing by blast
  have ev: "?ev =
      [ReadDir ''/r'' (Some [''src'', ''dist'']), Stat ''/r/src'' (Some IsDirectory),
       Stat ''/r/dist'' (Some IsDirectory), Rename ''/r/src'' ''/r/lib'' True,
       ReadDir ''/r/lib'' (Some [''a.txt'']), Stat ''/r/lib/a.txt'' (Some IsFile),
       ReadFile ''/r/lib/a.txt'' (Some ''use src here''),
       WriteFile ''/r/lib/a.txt'' ''use lib here'' True]"
    by code_simp
  have ign: "shouldIgnoreFolder (pathBasename memPlatform ''/r/dist'')" by code_simp
  note inst = ignored_folders_not_selected [OF H, where fuel = 5 and root = "''/r''"
      and vs = "generateVariants ''src''" and r = "''lib''" and w = ?w]
  have enter: "\<forall>res. ReadDir ''/r/dist'' res \<notin> set ?ev"
  proof (intro allI notI)
    fix res assume "ReadDir ''/r/dist'' res \<in> set ?ev"
    with inst have "''/r/dist'' = ''/r'' \<or> \<not> shouldIgnoreFolder (pathBasename memPlatform ''/r/dist'') \<or>
        (\<exists>src. Rename src ''/r/dist'' True \<in> set ?ev \<and>
               \<not> shouldIgnoreFolder (pathBasename memPlatform src))"
      by blast
    with ign have "\<exists>src. Rename src ''/r/dist'' True \<in> set ?ev" by auto
    then show False unfolding ev by simp
  qed
  have ren: "\<forall>dst ok. Rename ''/r/dist'' dst ok \<notin> set ?ev"
  proof (intro allI notI)
    fix dst ok assume "Rename ''/r/dist'' dst ok \<in> set ?ev"
    with inst have "\<not> shouldIgnoreFolder (pathBasename memPlatform ''/r/dist'') \<or>
        Stat ''/r/dist'' (Some IsFile) \<in> set ?ev"
      by blast
    with ign have "Stat ''/r/dist'' (Some IsFile) \<in> set ?ev" by simp
    then show False unfolding ev by simp
  qed
  have listed: "readdirSync memPlatform ''/r'' ?w = Some [''src'', ''dist''] \<and>
      collectItems memPlatform ''/r'' [''src'', ''dist''] ?w =
        (Some ([''/r/src''], []),
         [Stat ''/r/src'' (Some IsDirectory), Stat ''/r/dist'' (Some IsDirectory)])"
    by code_simp
  have name: "''dist'' \<in> set [''src'', ''dist''] \<and> shouldIgnoreFolder ''dist''" by code_simp
  have sel: "pathJoin memPlatform ''/r'' ''dist'' \<notin> set [''/r/src'']"
    using listed name
      ignored_folders_not_selected [OF H, where d = "''/r''" and w = ?w
        and items = "[''src'', ''dist'']" and directories = "[''/r/src'']" and files = "[]"
        and statEvents = "[Stat ''/r/src'' (Some IsDirectory), Stat ''/r/dist'' (Some IsDirectory)]"]
    by blast
  from enter ren listed name sel show ?thesis by blast
qed

section \<open>Failures of the file system\<close>

lemma readAttempts_append [simp]: "readAttempts (a @ b) = readAttempts a @ readAttempts b"
  by (simp add: readAttempts_def)

lemma writeAttempts_append [simp]: "writeAttempts (a @ b) = writeAttempts a @ writeAttempts b"
  by (simp add: writeAttempts_def)

lemma renameAttempts_append [simp]: "renameAttempts (a @ b) = renameAttempts a @ renameAttempts b"
  by (simp add: renameAttempts_def)








end
